theory Spec2Isabelle
  imports Main "HOL-Library.Char_ord" "HOL-Library.List_Lexorder"
begin

section \<open>Surface element graph: group index, traversal, connectors, ordering keys\<close>

text \<open>
  A shallow embedding of the surface block model
  (\<^verbatim>\<open>framework/std/src/gfx/model/surface/surface-model.ts\<close>), of the tree utilities
  (\<^verbatim>\<open>framework/std/src/utils/tree.ts\<close>), of the connector endpoint index of the
  affine surface model and of the ungroup index generator
  (\<^verbatim>\<open>affine/gfx/group/src/command/group-api.ts\<close>).

  Element ids are JavaScript strings. A JavaScript \<^verbatim>\<open>Map\<close> that is only read by key is a
  HOL map; one that is iterated is an association list in insertion order.
  A thrown \<^verbatim>\<open>Error\<close> is the left summand of a result, carrying the message.
\<close>

type_synonym id = string

datatype error = Error string

subsection \<open>Group children index\<close>

text \<open>
  The two private maps of \<^verbatim>\<open>SurfaceBlockModel\<close> that the index functions touch:
  \<^verbatim>\<open>_parentGroupMap: Map<string, string>\<close> and
  \<^verbatim>\<open>_groupChildIdsMap: Map<string, string[]>\<close>.
\<close>

record group_index =
  parentGroupMap :: "id \<rightharpoonup> id"
  groupChildIdsMap :: "id \<rightharpoonup> id list"

text \<open>
  The loop body shared by both index functions:
  \<^verbatim>\<open>if (this._parentGroupMap.get(childId) === groupId) this._parentGroupMap.delete(childId)\<close>.
\<close>

definition deleteIfParent :: "id \<Rightarrow> (id \<rightharpoonup> id) \<Rightarrow> id \<Rightarrow> (id \<rightharpoonup> id)" where
  "deleteIfParent groupId pm childId =
     (if pm childId = Some groupId then pm(childId := None) else pm)"

text \<open>\<^verbatim>\<open>prev.forEach(childId => ...)\<close>: the remove-previous-children phase.\<close>

definition removePreviousChildren :: "id \<Rightarrow> id list \<Rightarrow> (id \<rightharpoonup> id) \<Rightarrow> (id \<rightharpoonup> id)" where
  "removePreviousChildren groupId prev pm = foldl (deleteIfParent groupId) pm prev"

text \<open>\<^verbatim>\<open>nextChildIds.forEach(childId => this._parentGroupMap.set(childId, groupId))\<close>.\<close>

definition setNextChildren :: "id \<Rightarrow> id list \<Rightarrow> (id \<rightharpoonup> id) \<Rightarrow> (id \<rightharpoonup> id)" where
  "setNextChildren groupId nextChildIds pm =
     foldl (\<lambda>m childId. m(childId \<mapsto> groupId)) pm nextChildIds"

definition removeGroupFromChildrenIndex ::
  "id \<Rightarrow> 'a group_index_scheme \<Rightarrow> 'a group_index_scheme" where
  "removeGroupFromChildrenIndex groupId s =
     (let previousChildIds = (case groupChildIdsMap s groupId of Some cs \<Rightarrow> cs | None \<Rightarrow> [])
      in s\<lparr> parentGroupMap := removePreviousChildren groupId previousChildIds (parentGroupMap s),
            groupChildIdsMap := (groupChildIdsMap s)(groupId := None) \<rparr>)"

text \<open>
  \<^verbatim>\<open>_syncGroupChildrenIndex(groupId, nextChildIds, previousChildIds?)\<close>; the optional
  third argument is an option, and
  \<^verbatim>\<open>previousChildIds ?? this._groupChildIdsMap.get(groupId) ?? []\<close> picks the first
  that is present.
\<close>

definition syncGroupChildrenIndex ::
  "id \<Rightarrow> id list \<Rightarrow> id list option \<Rightarrow> 'a group_index_scheme \<Rightarrow> 'a group_index_scheme" where
  "syncGroupChildrenIndex groupId nextChildIds previousChildIds s =
     (let prev = (case previousChildIds of
                    Some p \<Rightarrow> p
                  | None \<Rightarrow> (case groupChildIdsMap s groupId of Some cs \<Rightarrow> cs | None \<Rightarrow> []))
      in s\<lparr> parentGroupMap :=
              setNextChildren groupId nextChildIds
                (removePreviousChildren groupId prev (parentGroupMap s)),
            groupChildIdsMap := (groupChildIdsMap s)(groupId \<mapsto> nextChildIds) \<rparr>)"


subsection \<open>Tree utilities\<close>

text \<open>
  \<^verbatim>\<open>tree.ts\<close> works on model objects linked by two getters: \<^verbatim>\<open>element.group\<close> (the
  parent group or \<^verbatim>\<open>null\<close>) and \<^verbatim>\<open>group.childElements\<close>. Objects are modelled by their
  identity \<open>'a\<close>; the \<^verbatim>\<open>group\<close> getter is a function \<open>groupOf\<close> into \<open>'a option\<close>, and
  the child lists are an association list from each group-compatible element to its
  \<^verbatim>\<open>childElements\<close> (an element without entry is not group-compatible).
\<close>

text \<open>\<^verbatim>\<open>Set.prototype.add\<close> on a set kept in insertion order.\<close>

fun setAdd :: "'a list \<Rightarrow> 'a \<Rightarrow> 'a list" where
  "setAdd xs x = (if x \<in> set xs then xs else xs @ [x])"

text \<open>\<^verbatim>\<open>[...new Set(elements)]\<close>: the first occurrence of each element, in order.\<close>

definition newSet :: "'a list \<Rightarrow> 'a list" where
  "newSet xs = foldl setAdd [] xs"

text \<open>
  The \<^verbatim>\<open>while (ancestor)\<close> loop of \<^verbatim>\<open>getTopElements\<close>; it returns the final value of
  \<^verbatim>\<open>hasSelectedAncestor\<close>. The source has no bound on the walk, so the loop is a partial
  function: \<open>None\<close> means that the loop never exits.
\<close>

partial_function (option) selectedAncestorWalk ::
  "('a \<Rightarrow> 'a option) \<Rightarrow> 'a set \<Rightarrow> 'a option \<Rightarrow> bool option" where
  "selectedAncestorWalk groupOf selected ancestor =
     (case ancestor of
        None \<Rightarrow> Some False
      | Some a \<Rightarrow> if a \<in> selected then Some True
                  else selectedAncestorWalk groupOf selected (groupOf a))"

text \<open>The \<^verbatim>\<open>for (const element of uniqueElements)\<close> loop, with \<^verbatim>\<open>topElements\<close> threaded.\<close>

fun topElementsLoop ::
  "('a \<Rightarrow> 'a option) \<Rightarrow> 'a set \<Rightarrow> 'a list \<Rightarrow> 'a list \<Rightarrow> 'a list option" where
  "topElementsLoop groupOf selected [] topElements = Some topElements"
| "topElementsLoop groupOf selected (element # rest) topElements =
     (case selectedAncestorWalk groupOf selected (groupOf element) of
        None \<Rightarrow> None
      | Some hasSelectedAncestor \<Rightarrow>
          topElementsLoop groupOf selected rest
            (if hasSelectedAncestor then topElements else topElements @ [element]))"

definition getTopElements :: "('a \<Rightarrow> 'a option) \<Rightarrow> 'a list \<Rightarrow> 'a list option" where
  "getTopElements groupOf elements =
     (let uniqueElements = newSet elements;
          selected = set uniqueElements
      in topElementsLoop groupOf selected uniqueElements [])"

text \<open>The \<^verbatim>\<open>while (_container)\<close> loop of \<^verbatim>\<open>hasDescendantElementImpl\<close>.\<close>

partial_function (option) containerWalk ::
  "('a \<Rightarrow> 'a option) \<Rightarrow> 'a \<Rightarrow> 'a option \<Rightarrow> bool option" where
  "containerWalk groupOf container c =
     (case c of
        None \<Rightarrow> Some False
      | Some a \<Rightarrow> if a = container then Some True
                  else containerWalk groupOf container (groupOf a))"

definition hasDescendantElementImpl :: "('a \<Rightarrow> 'a option) \<Rightarrow> 'a \<Rightarrow> 'a \<Rightarrow> bool option" where
  "hasDescendantElementImpl groupOf container element =
     containerWalk groupOf container (groupOf element)"

type_synonym 'a child_graph = "('a \<times> 'a list) list"

text \<open>\<^verbatim>\<open>isGfxGroupCompatibleModel(element) ? element.childElements : (none)\<close>.\<close>

definition childElements :: "'a child_graph \<Rightarrow> 'a \<Rightarrow> 'a list option" where
  "childElements g x = map_of g x"

definition graph_nodes :: "'a child_graph \<Rightarrow> 'a set" where
  "graph_nodes g = fst ` set g"

text \<open>
  The optional callbacks of \<^verbatim>\<open>traverse\<close> act on a state \<open>'s\<close> (what their closures
  mutate). \<^verbatim>\<open>preCallback\<close> also returns the \<^verbatim>\<open>interrupt\<close> flag; a missing callback
  does nothing.
\<close>

definition runPre :: "('a \<Rightarrow> 's \<Rightarrow> bool \<times> 's) option \<Rightarrow> 'a \<Rightarrow> 's \<Rightarrow> bool \<times> 's" where
  "runPre pre element st = (case pre of None \<Rightarrow> (False, st) | Some cb \<Rightarrow> cb element st)"

definition runPost :: "('a \<Rightarrow> 's \<Rightarrow> 's) option \<Rightarrow> 'a \<Rightarrow> 'a set \<times> 's \<Rightarrow> 'a set \<times> 's" where
  "runPost post element vs = (fst vs, (case post of None \<Rightarrow> snd vs | Some cb \<Rightarrow> cb element (snd vs)))"

text \<open>
  \<^verbatim>\<open>innerTraverse\<close> with its \<^verbatim>\<open>visited\<close> set: the pair \<open>vs\<close> is the visited set and the
  callbacks' state. \<open>forEachChild\<close> is \<^verbatim>\<open>element.childElements.forEach(innerTraverse)\<close>.
\<close>

function innerTraverse ::
    "'a child_graph \<Rightarrow> ('a \<Rightarrow> 's \<Rightarrow> bool \<times> 's) option \<Rightarrow> ('a \<Rightarrow> 's \<Rightarrow> 's) option
       \<Rightarrow> 'a \<Rightarrow> 'a set \<times> 's \<Rightarrow> 'a set \<times> 's"
  and forEachChild ::
    "'a child_graph \<Rightarrow> ('a \<Rightarrow> 's \<Rightarrow> bool \<times> 's) option \<Rightarrow> ('a \<Rightarrow> 's \<Rightarrow> 's) option
       \<Rightarrow> 'a list \<Rightarrow> 'a set \<times> 's \<Rightarrow> 'a set \<times> 's"
where
  "innerTraverse g pre post element vs =
     (if element \<in> fst vs then vs
      else if fst (runPre pre element (snd vs))
        then (insert element (fst vs), snd (runPre pre element (snd vs)))
        else runPost post element
               (case childElements g element of
                  None \<Rightarrow> (insert element (fst vs), snd (runPre pre element (snd vs)))
                | Some children \<Rightarrow>
                    forEachChild g pre post children
                      (insert element (fst vs), snd (runPre pre element (snd vs)))))"
| "forEachChild g pre post [] vs = vs"
| "forEachChild g pre post (child # rest) vs =
     forEachChild g pre post rest (innerTraverse g pre post child vs)"
  by pat_completeness auto

lemma fst_runPost: "fst (runPost post element vs) = fst vs"
  by (simp add: runPost_def)

lemma traverse_visited_mono_dom:
  "innerTraverse_forEachChild_dom (Inl (g, pre, post, element, vs)) \<Longrightarrow>
     fst vs \<subseteq> fst (innerTraverse g pre post element vs)"
  "innerTraverse_forEachChild_dom (Inr (g, pre, post, children, vs)) \<Longrightarrow>
     fst vs \<subseteq> fst (forEachChild g pre post children vs)"
proof (induction g pre post element vs and g pre post children vs
        rule: innerTraverse_forEachChild.pinduct)
  case (1 g pre post element vs)
  show ?case
  proof (cases "element \<in> fst vs \<or> fst (runPre pre element (snd vs))")
    case True
    then show ?thesis
      using "1.hyps" by (auto simp: innerTraverse.psimps)
  next
    case False
    show ?thesis
    proof (cases "childElements g element")
      case None
      then show ?thesis
        using False "1.hyps" by (auto simp: innerTraverse.psimps fst_runPost)
    next
      case (Some children)
      have "insert element (fst vs)
              \<subseteq> fst (forEachChild g pre post children
                        (insert element (fst vs), snd (runPre pre element (snd vs))))"
        using "1.IH" [of children] False Some by simp
      then show ?thesis
        using False Some "1.hyps" by (auto simp: innerTraverse.psimps fst_runPost)
    qed
  qed
next
  case (2 g pre post vs)
  then show ?case by (simp add: forEachChild.psimps)
next
  case (3 g pre post child rest vs)
  then show ?case by (auto simp: forEachChild.psimps)
qed


lemma card_unvisited_insert:
  assumes "childElements g element = Some children" "element \<notin> visited"
  shows "card (graph_nodes g - insert element visited) < card (graph_nodes g - visited)"
proof -
  have "element \<in> graph_nodes g - visited"
    using assms by (auto simp: childElements_def graph_nodes_def dest!: map_of_SomeD intro: rev_image_eqI)
  moreover have "finite (graph_nodes g - visited)"
    by (simp add: graph_nodes_def)
  moreover have "graph_nodes g - insert element visited = (graph_nodes g - visited) - {element}"
    by auto
  ultimately show ?thesis
    by (metis card_Diff1_less)
qed

lemma card_unvisited_mono:
  assumes "visited \<subseteq> visited'"
  shows "card (graph_nodes g - visited') \<le> card (graph_nodes g - visited)"
proof (rule card_mono)
  show "finite (graph_nodes g - visited)" by (simp add: graph_nodes_def)
  show "graph_nodes g - visited' \<subseteq> graph_nodes g - visited" using assms by auto
qed

text \<open>
  Each recursive descent marks an unvisited element of the (finite) child graph, so the
  number of unvisited graph nodes decreases: the traversal terminates on every graph,
  cyclic or not.
\<close>

termination innerTraverse
  apply (relation "measures
    [\<lambda>x. case x of Inl (g, pre, post, element, vs) \<Rightarrow> card (graph_nodes g - fst vs)
             | Inr (g, pre, post, children, vs) \<Rightarrow> card (graph_nodes g - fst vs),
     \<lambda>x. case x of Inl _ \<Rightarrow> 0 | Inr (g, pre, post, children, vs) \<Rightarrow> Suc (length children)]")
  subgoal by simp
  subgoal by (simp add: card_unvisited_insert)
  subgoal by simp
  subgoal for g pre post child rest vs
    using card_unvisited_mono [OF traverse_visited_mono_dom(1), of g pre post child vs g]
    by auto
  done


declare innerTraverse.simps [simp del]

text \<open>\<^verbatim>\<open>traverse(element, preCallback, postCallBack)\<close> starts from an empty visited set.\<close>

definition traverse ::
  "'a child_graph \<Rightarrow> 'a \<Rightarrow> ('a \<Rightarrow> 's \<Rightarrow> bool \<times> 's) option \<Rightarrow> ('a \<Rightarrow> 's \<Rightarrow> 's) option \<Rightarrow> 's \<Rightarrow> 's" where
  "traverse g element pre post st = snd (innerTraverse g pre post element ({}, st))"

text \<open>The callback \<^verbatim>\<open>element => { results.push(element) }\<close>; it returns \<^verbatim>\<open>undefined\<close>.\<close>

definition pushResult :: "'a \<Rightarrow> 'a list \<Rightarrow> bool \<times> 'a list" where
  "pushResult element results = (False, results @ [element])"

text \<open>
  \<^verbatim>\<open>descendantElementsImpl(container)\<close>: one \<^verbatim>\<open>traverse\<close> call, hence one fresh visited
  set, per direct child. The container is group-compatible by its type; an id without a
  child list yields no children.
\<close>

definition descendantElementsImpl :: "'a child_graph \<Rightarrow> 'a \<Rightarrow> 'a list" where
  "descendantElementsImpl g container =
     foldl (\<lambda>results child. traverse g child (Some pushResult) None results) []
       (case childElements g container of Some children \<Rightarrow> children | None \<Rightarrow> [])"

subsection \<open>Surface block model\<close>

text \<open>
  What the modelled functions read of an element or block model object: its \<^verbatim>\<open>id\<close> and
  \<^verbatim>\<open>type\<close>, its \<^verbatim>\<open>childIds\<close> when it is group-like (\<open>None\<close> otherwise), and for a
  connector \<^verbatim>\<open>source?.id ?? null\<close> and \<^verbatim>\<open>target?.id ?? null\<close>.
\<close>

record gfx_model =
  model_id :: id
  model_type :: string
  childIds :: "id list option"
  sourceId :: "id option"
  targetId :: "id option"

text \<open>
  The state of \<^verbatim>\<open>SurfaceBlockModel\<close>: \<^verbatim>\<open>store.readonly\<close>, \<^verbatim>\<open>_elementModels\<close>,
  \<^verbatim>\<open>_groupLikeModels\<close> (iterated by \<^verbatim>\<open>getGroup\<close>, so in insertion order), the blocks of the
  store (\<^verbatim>\<open>store.getBlock(id)?.model\<close>), the keys of \<^verbatim>\<open>_elementCtorMap\<close>, and the two
  group index maps.
\<close>

record surface = group_index +
  readonly :: bool
  elementModels :: "(id \<times> gfx_model) list"
  groupLikeModels :: "(id \<times> gfx_model) list"
  blocks :: "(id \<times> gfx_model) list"
  registeredElementTypes :: "string list"

text \<open>
  Code of other modules that the surface model calls: methods of the group models, the
  CRDT map of elements, the block store, the property setters of an element model and the
  static \<^verbatim>\<open>propsToY\<close> of an element constructor. They are parameters, acting on the state.
\<close>

record ('v, 's) externals =
  hasChild :: "gfx_model \<Rightarrow> gfx_model \<Rightarrow> bool"
  removeChild :: "gfx_model \<Rightarrow> gfx_model \<Rightarrow> 's \<Rightarrow> 's"
  elementsDelete :: "id \<Rightarrow> 's \<Rightarrow> 's"
  deleteBlock :: "gfx_model \<Rightarrow> 's \<Rightarrow> 's"
  assignProp :: "gfx_model \<Rightarrow> string \<Rightarrow> 'v \<Rightarrow> 's \<Rightarrow> 's"
  toYValue :: "'v \<Rightarrow> 'v"
  ctorPropsToY :: "string \<Rightarrow> ((string \<times> 'v) list \<Rightarrow> (string \<times> 'v) list) option"

text \<open>JavaScript truthiness of a \<^verbatim>\<open>string | null | undefined\<close>: present and not empty.\<close>

definition truthy :: "string option \<Rightarrow> bool" where
  "truthy x = (case x of None \<Rightarrow> False | Some str \<Rightarrow> str \<noteq> [])"

definition getElementById :: "'a surface_scheme \<Rightarrow> id \<Rightarrow> gfx_model option" where
  "getElementById s ident = map_of (elementModels s) ident"

definition hasElementById :: "'a surface_scheme \<Rightarrow> id \<Rightarrow> bool" where
  "hasElementById s ident = (map_of (elementModels s) ident \<noteq> None)"

definition getBlock :: "'a surface_scheme \<Rightarrow> id \<Rightarrow> gfx_model option" where
  "getBlock s ident = map_of (blocks s) ident"

definition hasBlock :: "'a surface_scheme \<Rightarrow> id \<Rightarrow> bool" where
  "hasBlock s ident = (map_of (blocks s) ident \<noteq> None)"

text \<open>The argument of \<^verbatim>\<open>getGroup(elem: string | GfxModel)\<close>.\<close>

datatype elem_ref = ById id | ByModel gfx_model

text \<open>
  The \<^verbatim>\<open>for (const group of this._groupLikeModels.values())\<close> loop of \<^verbatim>\<open>getGroup\<close>:
  the first known group whose \<^verbatim>\<open>hasChild(model)\<close> holds.
\<close>

fun scanGroups ::
  "(gfx_model \<Rightarrow> gfx_model \<Rightarrow> bool) \<Rightarrow> gfx_model \<Rightarrow> (id \<times> gfx_model) list \<Rightarrow> gfx_model option" where
  "scanGroups hc model [] = None"
| "scanGroups hc model ((k, grp) # rest) =
     (if hc grp model then Some grp else scanGroups hc model rest)"

definition elemId :: "elem_ref \<Rightarrow> id" where
  "elemId elem = (case elem of ById i \<Rightarrow> i | ByModel m \<Rightarrow> model_id m)"

text \<open>
  \<^verbatim>\<open>typeof elem === 'string' ? (this.getElementById(elem) ?? this.store.getBlock(elem)?.model) : elem\<close>.
\<close>

definition resolveModel :: "'a surface_scheme \<Rightarrow> elem_ref \<Rightarrow> gfx_model option" where
  "resolveModel s elem =
     (case elem of
        ById i \<Rightarrow> (case getElementById s i of Some m \<Rightarrow> Some m | None \<Rightarrow> getBlock s i)
      | ByModel m \<Rightarrow> Some m)"

text \<open>
  \<^verbatim>\<open>getGroup(elem)\<close>. The cached parent id is used when it is truthy and names a known
  group; otherwise a truthy cached id is deleted, and the known groups are scanned.
\<close>

definition getGroup ::
  "('v, 's) externals \<Rightarrow> elem_ref \<Rightarrow> 'a surface_scheme
     \<Rightarrow> gfx_model option \<times> 'a surface_scheme" where
  "getGroup ext elem s =
     (let ident = elemId elem;
          parentGroupId = parentGroupMap s ident;
          cached = (if truthy parentGroupId
                    then map_of (groupLikeModels s) (the parentGroupId) else None)
      in case cached of
           Some grp \<Rightarrow> (Some grp, s)
         | None \<Rightarrow>
            (let s1 = (if truthy parentGroupId
                       then s\<lparr> parentGroupMap := (parentGroupMap s)(ident := None) \<rparr> else s)
             in case resolveModel s1 elem of
                  None \<Rightarrow> (None, s1)
                | Some m \<Rightarrow>
                   (case scanGroups (hasChild ext) m (groupLikeModels s1) of
                      Some grp \<Rightarrow>
                        (Some grp,
                         s1\<lparr> parentGroupMap := (parentGroupMap s1)(ident \<mapsto> model_id grp) \<rparr>)
                    | None \<Rightarrow> (None, s1))))"

text \<open>
  \<^verbatim>\<open>_collectElementsToDelete\<close> fills three collections passed by reference:
  \<^verbatim>\<open>deleteElementIds\<close> (only tested for membership), \<^verbatim>\<open>orderedDeleteIds\<close> and
  \<^verbatim>\<open>deleteBlockIds\<close> (a set that is iterated, so kept in insertion order).
\<close>

type_synonym delete_acc = "id set \<times> id list \<times> id list"

definition markDeleted :: "id \<Rightarrow> delete_acc \<Rightarrow> delete_acc" where
  "markDeleted ident acc = (insert ident (fst acc), snd acc)"

definition pushOrdered :: "id \<Rightarrow> delete_acc \<Rightarrow> delete_acc" where
  "pushOrdered ident acc = (fst acc, fst (snd acc) @ [ident], snd (snd acc))"

definition addBlockId :: "id \<Rightarrow> delete_acc \<Rightarrow> delete_acc" where
  "addBlockId ident acc = (fst acc, fst (snd acc), setAdd (snd (snd acc)) ident)"

function collectElementsToDelete :: "'a surface_scheme \<Rightarrow> id \<Rightarrow> delete_acc \<Rightarrow> delete_acc"
  and collectChildren :: "'a surface_scheme \<Rightarrow> id list \<Rightarrow> delete_acc \<Rightarrow> delete_acc"
where
  "collectElementsToDelete s ident acc =
     (if ident \<in> fst acc then acc
      else case getElementById s ident of
             None \<Rightarrow> acc
           | Some element \<Rightarrow>
               pushOrdered ident
                 (case childIds element of
                    None \<Rightarrow> markDeleted ident acc
                  | Some cs \<Rightarrow> collectChildren s cs (markDeleted ident acc)))"
| "collectChildren s [] acc = acc"
| "collectChildren s (childId # rest) acc =
     collectChildren s rest
       (if hasElementById s childId then collectElementsToDelete s childId acc
        else if hasBlock s childId then addBlockId childId acc
        else acc)"
  by pat_completeness auto

lemma collect_deleted_mono_dom:
  "collectElementsToDelete_collectChildren_dom (Inl (s, ident, acc)) \<Longrightarrow>
     fst acc \<subseteq> fst (collectElementsToDelete s ident acc)"
  "collectElementsToDelete_collectChildren_dom (Inr (s, cs, acc)) \<Longrightarrow>
     fst acc \<subseteq> fst (collectChildren s cs acc)"
proof (induction s ident acc and s cs acc rule: collectElementsToDelete_collectChildren.pinduct)
  case (1 s ident acc)
  show ?case
  proof (cases "ident \<in> fst acc")
    case True
    then show ?thesis using "1.hyps" by (simp add: collectElementsToDelete.psimps)
  next
    case False
    show ?thesis
    proof (cases "getElementById s ident")
      case None
      then show ?thesis using False "1.hyps" by (simp add: collectElementsToDelete.psimps)
    next
      case (Some element)
      show ?thesis
      proof (cases "childIds element")
        case None
        then show ?thesis
          using False Some "1.hyps"
          by (auto simp: collectElementsToDelete.psimps pushOrdered_def markDeleted_def)
      next
        case (Some cs)
        have "fst (markDeleted ident acc) \<subseteq> fst (collectChildren s cs (markDeleted ident acc))"
          using "1.IH" [OF False \<open>getElementById s ident = Some element\<close> Some] .
        then show ?thesis
          using False Some \<open>getElementById s ident = Some element\<close> "1.hyps"
          by (auto simp: collectElementsToDelete.psimps pushOrdered_def markDeleted_def)
      qed
    qed
  qed
next
  case (2 s acc)
  then show ?case by (simp add: collectChildren.psimps)
next
  case (3 s childId rest acc)
  then show ?case
    by (auto simp: collectChildren.psimps addBlockId_def split: if_splits)
qed

text \<open>
  A recursive call marks an element id that has a live element and was not marked before,
  so the number of unmarked live ids decreases: the collection terminates even when the
  stored \<^verbatim>\<open>childIds\<close> form a cycle.
\<close>

lemma card_undeleted_insert:
  assumes "getElementById s ident = Some element" "ident \<notin> deleted"
  shows "card (fst ` set (elementModels s) - insert ident deleted)
           < card (fst ` set (elementModels s) - deleted)"
proof -
  have "ident \<in> fst ` set (elementModels s) - deleted"
    using assms by (auto simp: getElementById_def dest!: map_of_SomeD intro: rev_image_eqI)
  moreover have "finite (fst ` set (elementModels s) - deleted)"
    by simp
  moreover have "fst ` set (elementModels s) - insert ident deleted
                   = (fst ` set (elementModels s) - deleted) - {ident}"
    by auto
  ultimately show ?thesis
    by (metis card_Diff1_less)
qed

lemma card_undeleted_mono:
  assumes "deleted \<subseteq> deleted'"
  shows "card (fst ` set (elementModels s) - deleted') \<le> card (fst ` set (elementModels s) - deleted)"
proof (rule card_mono)
  show "finite (fst ` set (elementModels s) - deleted)" by simp
  show "fst ` set (elementModels s) - deleted' \<subseteq> fst ` set (elementModels s) - deleted"
    using assms by auto
qed

termination collectElementsToDelete
  apply (relation "measures
    [\<lambda>x. case x of Inl (s, ident, acc) \<Rightarrow> card (fst ` set (elementModels s) - fst acc)
             | Inr (s, cs, acc) \<Rightarrow> card (fst ` set (elementModels s) - fst acc),
     \<lambda>x. case x of Inl _ \<Rightarrow> 0 | Inr (s, cs, acc) \<Rightarrow> Suc (length cs)]")
  subgoal by simp
  subgoal by (simp add: card_undeleted_insert markDeleted_def)
  subgoal by simp
  subgoal for s childId rest acc
    using card_undeleted_mono [OF collect_deleted_mono_dom(1), of s childId acc s]
    by (auto simp: addBlockId_def)
  done

declare collectElementsToDelete.simps [simp del]


text \<open>\<^verbatim>\<open>_removeFromParentGroupIfNeeded(element, deleteElementIds)\<close>.\<close>

definition removeFromParentGroupIfNeeded ::
  "('v, 'a surface_scheme) externals \<Rightarrow> gfx_model \<Rightarrow> id set \<Rightarrow> 'a surface_scheme
     \<Rightarrow> 'a surface_scheme" where
  "removeFromParentGroupIfNeeded ext element deleteElementIds s =
     (let parentGroupId = parentGroupMap s (model_id element)
      in if truthy parentGroupId \<and> the parentGroupId \<in> deleteElementIds then s
         else
           (let known = (if truthy parentGroupId
                         then map_of (groupLikeModels s) (the parentGroupId) else None);
                found = (case known of
                           Some grp \<Rightarrow> (Some grp, s)
                         | None \<Rightarrow> getGroup ext (ById (model_id element)) s)
            in case fst found of
                 Some parentGroup \<Rightarrow>
                   if model_id parentGroup \<notin> deleteElementIds
                   then removeChild ext parentGroup element (snd found)
                   else snd found
               | None \<Rightarrow> snd found))"

text \<open>The bodies of the two \<^verbatim>\<open>forEach\<close> loops inside the transaction of \<^verbatim>\<open>deleteElement\<close>.\<close>

definition deleteElementStep ::
  "('v, 'a surface_scheme) externals \<Rightarrow> id set \<Rightarrow> 'a surface_scheme \<Rightarrow> id \<Rightarrow> 'a surface_scheme" where
  "deleteElementStep ext deleteElementIds s elementId =
     (case getElementById s elementId of
        None \<Rightarrow> s
      | Some element \<Rightarrow>
          elementsDelete ext elementId
            (removeFromParentGroupIfNeeded ext element deleteElementIds s))"

definition deleteBlockStep ::
  "('v, 'a surface_scheme) externals \<Rightarrow> id set \<Rightarrow> 'a surface_scheme \<Rightarrow> id \<Rightarrow> 'a surface_scheme" where
  "deleteBlockStep ext deleteElementIds s blockId =
     (case getBlock s blockId of
        None \<Rightarrow> s
      | Some block \<Rightarrow>
          deleteBlock ext block (removeFromParentGroupIfNeeded ext block deleteElementIds s))"

text \<open>
  \<^verbatim>\<open>deleteElement(id)\<close>: the read-only check, then the existence check, then the
  collection of the deletion closure and the transaction.
\<close>

definition deleteElement ::
  "('v, 'a surface_scheme) externals \<Rightarrow> id \<Rightarrow> 'a surface_scheme \<Rightarrow> error + 'a surface_scheme" where
  "deleteElement ext ident s =
     (if readonly s then Inl (Error ''Cannot remove element in readonly mode'')
      else if \<not> hasElementById s ident then Inr s
      else
        (let collected = collectElementsToDelete s ident ({}, [], []);
             deleteElementIds = fst collected;
             orderedDeleteIds = fst (snd collected);
             deleteBlockIds = snd (snd collected)
         in if orderedDeleteIds = [] then Inr s
            else Inr (foldl (deleteBlockStep ext deleteElementIds)
                        (foldl (deleteElementStep ext deleteElementIds) s orderedDeleteIds)
                        deleteBlockIds)))"

text \<open>
  \<^verbatim>\<open>_propsToY(type, props)\<close>: it throws for a type without constructor, converts the
  values that carry a text or map marker, and applies the constructor's static
  \<^verbatim>\<open>propsToY\<close> when there is one.
\<close>

definition propsToY ::
  "('v, 's) externals \<Rightarrow> 'a surface_scheme \<Rightarrow> string \<Rightarrow> (string \<times> 'v) list
     \<Rightarrow> error + (string \<times> 'v) list" where
  "propsToY ext s type props =
     (if type \<notin> set (registeredElementTypes s)
      then Inl (Error (''Invalid element type: '' @ type))
      else
        (let converted = map (\<lambda>(key, val). (key, toYValue ext val)) props
         in case ctorPropsToY ext type of
              Some f \<Rightarrow> Inr (f converted)
            | None \<Rightarrow> Inr converted))"

text \<open>\<^verbatim>\<open>updateElement(id, props)\<close>.\<close>

definition updateElement ::
  "('v, 'a surface_scheme) externals \<Rightarrow> id \<Rightarrow> (string \<times> 'v) list \<Rightarrow> 'a surface_scheme
     \<Rightarrow> error + 'a surface_scheme" where
  "updateElement ext ident props s =
     (if readonly s then Inl (Error ''Cannot update element in readonly mode'')
      else case getElementById s ident of
             None \<Rightarrow> Inl (Error (''Element '' @ ident @ '' is not found''))
           | Some elementModel \<Rightarrow>
               (case propsToY ext s (model_type elementModel) props of
                  Inl e \<Rightarrow> Inl e
                | Inr props' \<Rightarrow>
                    Inr (foldl (\<lambda>st (key, val). assignProp ext elementModel key val st) s props')))"

subsection \<open>Connector endpoint index\<close>

text \<open>
  The affine \<^verbatim>\<open>SurfaceBlockModel\<close> extends the base model by
  \<^verbatim>\<open>_connectorIdsByEndpoint: Map<string, Set<string>>\<close> (each set in insertion order) and
  \<^verbatim>\<open>_connectorEndpoints: Map<string, {sourceId, targetId}>\<close>.
\<close>

record affine_surface = surface +
  connectorIdsByEndpoint :: "id \<rightharpoonup> id list"
  connectorEndpoints :: "id \<rightharpoonup> (id option \<times> id option)"

definition addConnectorEndpoint ::
  "id \<Rightarrow> id \<Rightarrow> 'a affine_surface_scheme \<Rightarrow> 'a affine_surface_scheme" where
  "addConnectorEndpoint endpointId connectorId s =
     (case connectorIdsByEndpoint s endpointId of
        Some connectorIds \<Rightarrow>
          s\<lparr> connectorIdsByEndpoint :=
               (connectorIdsByEndpoint s)(endpointId \<mapsto> setAdd connectorIds connectorId) \<rparr>
      | None \<Rightarrow>
          s\<lparr> connectorIdsByEndpoint := (connectorIdsByEndpoint s)(endpointId \<mapsto> [connectorId]) \<rparr>)"


definition removeConnectorEndpoint ::
  "id \<Rightarrow> id \<Rightarrow> 'a affine_surface_scheme \<Rightarrow> 'a affine_surface_scheme" where
  "removeConnectorEndpoint endpointId connectorId s =
     (case connectorIdsByEndpoint s endpointId of
        None \<Rightarrow> s
      | Some connectorIds \<Rightarrow>
          (let remaining = removeAll connectorId connectorIds
           in if remaining = []
              then s\<lparr> connectorIdsByEndpoint := (connectorIdsByEndpoint s)(endpointId := None) \<rparr>
              else s\<lparr> connectorIdsByEndpoint :=
                        (connectorIdsByEndpoint s)(endpointId \<mapsto> remaining) \<rparr>))"


text \<open>
  \<^verbatim>\<open>_setConnectorEndpoints(connector)\<close>. With no cached pair,
  \<^verbatim>\<open>previousEndpoints?.sourceId\<close> is \<^verbatim>\<open>undefined\<close>, which is strictly equal to no
  \<^verbatim>\<open>string | null\<close>: the early return needs a cached pair.
\<close>

definition setConnectorEndpoints ::
  "gfx_model \<Rightarrow> 'a affine_surface_scheme \<Rightarrow> 'a affine_surface_scheme" where
  "setConnectorEndpoints connector s =
     (let previousEndpoints = connectorEndpoints s (model_id connector)
      in if previousEndpoints = Some (sourceId connector, targetId connector) then s
         else
           (let prevSource = (case previousEndpoints of Some p \<Rightarrow> fst p | None \<Rightarrow> None);
                prevTarget = (case previousEndpoints of Some p \<Rightarrow> snd p | None \<Rightarrow> None);
                s1 = (if truthy prevSource
                      then removeConnectorEndpoint (the prevSource) (model_id connector) s else s);
                s2 = (if truthy prevTarget
                      then removeConnectorEndpoint (the prevTarget) (model_id connector) s1 else s1);
                s3 = (if truthy (sourceId connector)
                      then addConnectorEndpoint (the (sourceId connector)) (model_id connector) s2
                      else s2);
                s4 = (if truthy (targetId connector)
                      then addConnectorEndpoint (the (targetId connector)) (model_id connector) s3
                      else s3)
            in s4\<lparr> connectorEndpoints :=
                     (connectorEndpoints s4)(model_id connector
                        \<mapsto> (sourceId connector, targetId connector)) \<rparr>))"



subsection \<open>Ungroup index keys\<close>

text \<open>
  \<^verbatim>\<open>generateNKeysBetween\<close> and \<^verbatim>\<open>generateKeyBetween\<close> belong to the package
  \<^verbatim>\<open>fractional-indexing\<close>; they are parameters \<open>genN\<close> and \<open>gen1\<close> that return a value or
  throw. A bound is \<^verbatim>\<open>string | null\<close>.
\<close>

type_synonym key_bound = "string option"

definition tryGenerateN ::
  "(key_bound \<Rightarrow> key_bound \<Rightarrow> nat \<Rightarrow> error + string list) \<Rightarrow> nat \<Rightarrow> key_bound \<Rightarrow> key_bound
     \<Rightarrow> string list option" where
  "tryGenerateN genN count left right =
     (case genN left right count of
        Inl e \<Rightarrow> None
      | Inr generated \<Rightarrow> if length generated = count then Some generated else None)"

text \<open>
  \<^verbatim>\<open>orderedElements.map(() => { cursor = generateKeyBetween(cursor, right); return cursor })\<close>;
  the first throw aborts the map.
\<close>

fun generateOneByOne ::
  "(key_bound \<Rightarrow> key_bound \<Rightarrow> error + string) \<Rightarrow> 'e list \<Rightarrow> key_bound \<Rightarrow> key_bound
     \<Rightarrow> error + string list" where
  "generateOneByOne gen1 [] cursor right = Inr []"
| "generateOneByOne gen1 (element # rest) cursor right =
     (case gen1 cursor right of
        Inl e \<Rightarrow> Inl e
      | Inr k \<Rightarrow>
          (case generateOneByOne gen1 rest (Some k) right of
             Inl e \<Rightarrow> Inl e
           | Inr ks \<Rightarrow> Inr (k # ks)))"

definition tryGenerateOneByOne ::
  "(key_bound \<Rightarrow> key_bound \<Rightarrow> error + string) \<Rightarrow> 'e list \<Rightarrow> key_bound \<Rightarrow> key_bound
     \<Rightarrow> string list option" where
  "tryGenerateOneByOne gen1 orderedElements left right =
     (case generateOneByOne gen1 orderedElements left right of
        Inl e \<Rightarrow> None
      | Inr ks \<Rightarrow> Some ks)"

text \<open>The nullish chain \<^verbatim>\<open>a ?? b ?? ... ?? []\<close> of \<^verbatim>\<open>buildUngroupIndexes\<close>.\<close>

definition buildUngroupIndexes ::
  "(key_bound \<Rightarrow> key_bound \<Rightarrow> nat \<Rightarrow> error + string list)
     \<Rightarrow> (key_bound \<Rightarrow> key_bound \<Rightarrow> error + string)
     \<Rightarrow> 'e list \<Rightarrow> key_bound \<Rightarrow> key_bound \<Rightarrow> string \<Rightarrow> string list" where
  "buildUngroupIndexes genN gen1 orderedElements afterIndex beforeIndex fallbackAnchorIndex =
     (if orderedElements = [] then []
      else
        (let count = length orderedElements
         in case tryGenerateN genN count afterIndex beforeIndex of
              Some ks \<Rightarrow> ks
            | None \<Rightarrow>
           (case tryGenerateN genN count afterIndex None of
              Some ks \<Rightarrow> ks
            | None \<Rightarrow>
           (case tryGenerateN genN count (Some fallbackAnchorIndex) None of
              Some ks \<Rightarrow> ks
            | None \<Rightarrow>
           (case tryGenerateN genN count None None of
              Some ks \<Rightarrow> ks
            | None \<Rightarrow>
           (case tryGenerateOneByOne gen1 orderedElements None None of
              Some ks \<Rightarrow> ks
            | None \<Rightarrow> []))))))"

text \<open>
  The fallback chain in the specification's words: a list of strategies in priority order,
  each tried only if the previous ones gave nothing.
\<close>

fun firstSuccess :: "'a option list \<Rightarrow> 'a option" where
  "firstSuccess [] = None"
| "firstSuccess (None # rest) = firstSuccess rest"
| "firstSuccess (Some r # rest) = Some r"

text \<open>
  What the callers rely on from the key library: a batch that is returned is strictly
  increasing, and a single key generated above a lower bound with no upper bound is
  greater than that bound. Strings are compared as JavaScript does, lexicographically by
  code unit.
\<close>

definition batch_contract :: "(key_bound \<Rightarrow> key_bound \<Rightarrow> nat \<Rightarrow> error + string list) \<Rightarrow> bool" where
  "batch_contract genN \<longleftrightarrow>
     (\<forall>left right n ks. genN left right n = Inr ks \<longrightarrow> sorted_wrt (<) ks)"

definition single_contract :: "(key_bound \<Rightarrow> key_bound \<Rightarrow> error + string) \<Rightarrow> bool" where
  "single_contract gen1 \<longleftrightarrow>
     (\<forall>lower k. gen1 (Some lower) None = Inr k \<longrightarrow> lower < k)"

subsection \<open>Stash and pop of element fields\<close>

text \<open>
  Modelled from the spec: the primitive element model (\<^verbatim>\<open>element-model.ts\<close> and its field
  decorators) is not among the source files; only its test is. An element holds its
  backing storage \<open>yMap\<close>, the overlay \<open>stashed\<close> of fields taken offline, and its local
  (non-persisted) properties. \<open>declared\<close> is the list of declared persisted fields of the
  element's class.
\<close>

record 'v element_store =
  yMap :: "string \<rightharpoonup> 'v"
  stashed :: "string \<rightharpoonup> 'v option"
  localProps :: "string \<rightharpoonup> 'v"

text \<open>
  Modelled from the spec: \<^verbatim>\<open>stash(field)\<close> snapshots the field's current persisted value;
  on a field that is not a declared persisted field it is a silent no-op.
\<close>

definition stash :: "string list \<Rightarrow> string \<Rightarrow> 'v element_store \<Rightarrow> error + 'v element_store" where
  "stash declared field e =
     (if field \<in> set declared
      then Inr (e\<lparr> stashed := (stashed e)(field \<mapsto> yMap e field) \<rparr>)
      else Inr e)"

text \<open>
  Modelled from the spec: a write to a stashed field goes to the overlay only; a write to
  a declared field that is not stashed goes to storage; a write to any other property is
  kept locally.
\<close>

definition assign :: "string list \<Rightarrow> string \<Rightarrow> 'v \<Rightarrow> 'v element_store \<Rightarrow> error + 'v element_store" where
  "assign declared field v e =
     (if field \<in> set declared
      then (if stashed e field \<noteq> None
            then Inr (e\<lparr> stashed := (stashed e)(field \<mapsto> Some v) \<rparr>)
            else Inr (e\<lparr> yMap := (yMap e)(field \<mapsto> v) \<rparr>))
      else Inr (e\<lparr> localProps := (localProps e)(field \<mapsto> v) \<rparr>))"

text \<open>
  Modelled from the spec: \<^verbatim>\<open>pop(field)\<close> re-applies the overlay value to storage (one
  write) and ends the stash; on a field that is not stashed it is a silent no-op.
\<close>

definition pop :: "string list \<Rightarrow> string \<Rightarrow> 'v element_store \<Rightarrow> error + 'v element_store" where
  "pop declared field e =
     (case stashed e field of
        None \<Rightarrow> Inr e
      | Some overlay \<Rightarrow>
          Inr (e\<lparr> yMap := (yMap e)(field := overlay),
                  stashed := (stashed e)(field := None) \<rparr>))"

text \<open>Sequencing of calls that may throw.\<close>

definition andThen :: "error + 'a \<Rightarrow> ('a \<Rightarrow> error + 'b) \<Rightarrow> error + 'b" where
  "andThen r f = (case r of Inl e \<Rightarrow> Inl e | Inr x \<Rightarrow> f x)"

subsection \<open>Fixtures\<close>

text \<open>
  Modelled from the spec: the \<^verbatim>\<open>hasChild\<close> method of the group models, which is not among
  the source files. The spec calls it "checking actual containment": here, of the element's
  id in the group's \<^verbatim>\<open>childIds\<close>. It is used in the worked examples only.
\<close>

definition containsChild :: "gfx_model \<Rightarrow> gfx_model \<Rightarrow> bool" where
  "containsChild grp m = (case childIds grp of Some cs \<Rightarrow> model_id m \<in> set cs | None \<Rightarrow> False)"

definition two_group_index :: group_index where
  "two_group_index =
     \<lparr> parentGroupMap = [''a'' \<mapsto> ''group-1'', ''b'' \<mapsto> ''group-2''],
       groupChildIdsMap = [''group-1'' \<mapsto> [''a'', ''b''], ''group-2'' \<mapsto> [''b'']] \<rparr>"

definition empty_surface :: surface where
  "empty_surface =
     \<lparr> parentGroupMap = Map.empty, groupChildIdsMap = Map.empty, readonly = False,
       elementModels = [], groupLikeModels = [], blocks = [], registeredElementTypes = [''shape''] \<rparr>"

definition inert_externals :: "(nat, surface) externals" where
  "inert_externals =
     \<lparr> hasChild = containsChild,
       removeChild = (\<lambda>grp m s. s),
       elementsDelete = (\<lambda>i s. s),
       deleteBlock = (\<lambda>b s. s),
       assignProp = (\<lambda>m k v s. s),
       toYValue = (\<lambda>v. v),
       ctorPropsToY = (\<lambda>t. None) \<rparr>"

text \<open>
  The group links of the cyclic fixture of the tree tests (\<^verbatim>\<open>groupA.addChild(groupB);
  groupB.addChild(groupA)\<close>), with one more element \<^verbatim>\<open>leaf\<close> added to \<^verbatim>\<open>groupA\<close>.
\<close>

definition cyclic_groupOf :: "string \<Rightarrow> string option" where
  "cyclic_groupOf x =
     (if x = ''group-a'' then Some ''group-b''
      else if x = ''group-b'' then Some ''group-a''
      else if x = ''leaf'' then Some ''group-a''
      else None)"

text \<open>The child lists of the same fixture.\<close>

definition shared_child_graph :: "string child_graph" where
  "shared_child_graph = [(''group-a'', [''group-b'', ''leaf'']), (''group-b'', [''group-a''])]"

text \<open>A set of elements that the \<^verbatim>\<open>group\<close> getter never leaves.\<close>

definition closed_cycle :: "('a \<Rightarrow> 'a option) \<Rightarrow> 'a set \<Rightarrow> bool" where
  "closed_cycle groupOf C \<longleftrightarrow> (\<forall>a \<in> C. \<exists>b \<in> C. groupOf a = Some b)"

text \<open>
  How a traversal with the \<open>pushResult\<close> callback extends the pair of visited set and
  results: by the newly visited elements, each once.
\<close>

definition push_extends :: "'a set \<times> 'a list \<Rightarrow> 'a set \<times> 'a list \<Rightarrow> bool" where
  "push_extends vs vs' \<longleftrightarrow>
     (\<exists>new. snd vs' = snd vs @ new \<and> distinct new \<and> fst vs' = fst vs \<union> set new
            \<and> set new \<inter> fst vs = {})"

text \<open>
  The states of the test "getGroup should recover from stale cache": a shape, a group that
  contains it, and a cached parent id that names no known group. In the second state the
  cached parent is a known group that no longer contains the shape.
\<close>

definition test_shape :: gfx_model where
  "test_shape = \<lparr> model_id = ''shape-1'', model_type = ''testShape'', childIds = None,
                   sourceId = None, targetId = None \<rparr>"

definition fallback_group :: gfx_model where
  "fallback_group = \<lparr> model_id = ''group-fallback'', model_type = ''group'',
                       childIds = Some [''shape-1''], sourceId = None, targetId = None \<rparr>"

definition emptied_group :: gfx_model where
  "emptied_group = \<lparr> model_id = ''group-old'', model_type = ''group'',
                      childIds = Some [], sourceId = None, targetId = None \<rparr>"

definition stale_cache_surface :: surface where
  "stale_cache_surface =
     empty_surface\<lparr> elementModels := [(''shape-1'', test_shape)],
                     groupLikeModels := [(''group-fallback'', fallback_group)],
                     parentGroupMap := [''shape-1'' \<mapsto> ''stale-group-id''] \<rparr>"

definition moved_child_surface :: surface where
  "moved_child_surface =
     empty_surface\<lparr> elementModels := [(''shape-1'', test_shape)],
                     groupLikeModels := [(''group-old'', emptied_group),
                                         (''group-fallback'', fallback_group)],
                     parentGroupMap := [''shape-1'' \<mapsto> ''group-old''] \<rparr>"

text \<open>
  Key generators for the worked examples: the mock of the ungroup test (the batch throws on
  \<^verbatim>\<open>(a0, a0)\<close> and returns \<^verbatim>\<open>['n0', 'n1']\<close> otherwise), a batch generator that always
  throws, and a single-key generator that appends a digit to the lower bound.
\<close>

definition mock_genN :: "key_bound \<Rightarrow> key_bound \<Rightarrow> nat \<Rightarrow> error + string list" where
  "mock_genN left right n =
     (if left = Some ''a0'' \<and> right = Some ''a0'' then Inl (Error ''interval reversed'')
      else Inr [''n0'', ''n1''])"

definition failing_genN :: "key_bound \<Rightarrow> key_bound \<Rightarrow> nat \<Rightarrow> error + string list" where
  "failing_genN left right n = Inl (Error ''invalid range'')"

definition mock_gen1 :: "key_bound \<Rightarrow> key_bound \<Rightarrow> error + string" where
  "mock_gen1 left right = (case left of None \<Rightarrow> Inr ''k'' | Some c \<Rightarrow> Inr (c @ ''1''))"

text \<open>
  The element of the stash test: \<^verbatim>\<open>rotate\<close>, \<^verbatim>\<open>xywh\<close> and \<^verbatim>\<open>shapeType\<close> are declared
  fields, \<^verbatim>\<open>opacity\<close> is a local property.
\<close>

definition shape_fields :: "string list" where
  "shape_fields = [''rotate'', ''xywh'', ''shapeType'']"

definition fresh_shape :: "nat element_store" where
  "fresh_shape = \<lparr> yMap = [''rotate'' \<mapsto> 0], stashed = Map.empty, localProps = Map.empty \<rparr>"

text \<open>The index set of an endpoint, empty when the endpoint has no entry.\<close>

definition connectorIdsAt :: "'a affine_surface_scheme \<Rightarrow> id \<Rightarrow> id list" where
  "connectorIdsAt s endpointId =
     (case connectorIdsByEndpoint s endpointId of None \<Rightarrow> [] | Some connectorIds \<Rightarrow> connectorIds)"

text \<open>
  The invariant that links the two private maps of the connector index: a connector listed
  at an endpoint has a cached endpoint pair that names this endpoint, and the endpoint id is
  not the empty string. Every mutator of the index keeps it.
\<close>

definition index_consistent :: "'a affine_surface_scheme \<Rightarrow> bool" where
  "index_consistent s \<longleftrightarrow>
     (\<forall>e c. c \<in> set (connectorIdsAt s e) \<longrightarrow>
        (\<exists>src tgt. connectorEndpoints s c = Some (src, tgt) \<and> e \<noteq> [] \<and> (src = Some e \<or> tgt = Some e)))"




text \<open>
  The specification of the ancestor walks: the chain of \<^verbatim>\<open>group\<close> links that starts at
  \<open>start\<close> meets the set \<open>selected\<close>. \<open>acyclic_groups\<close> says that no chain of \<^verbatim>\<open>group\<close>
  links goes on forever.
\<close>

fun nthAncestor :: "('a \<Rightarrow> 'a option) \<Rightarrow> nat \<Rightarrow> 'a \<Rightarrow> 'a option" where
  "nthAncestor groupOf 0 a = Some a"
| "nthAncestor groupOf (Suc n) a =
     (case groupOf a of None \<Rightarrow> None | Some p \<Rightarrow> nthAncestor groupOf n p)"

definition chainMeets :: "('a \<Rightarrow> 'a option) \<Rightarrow> 'a set \<Rightarrow> 'a option \<Rightarrow> bool" where
  "chainMeets groupOf selected start \<longleftrightarrow>
     (\<exists>a n b. start = Some a \<and> nthAncestor groupOf n a = Some b \<and> b \<in> selected)"

definition acyclic_groups :: "('a \<Rightarrow> 'a option) \<Rightarrow> bool" where
  "acyclic_groups groupOf \<longleftrightarrow> wf {(p, a). groupOf a = Some p}"

text \<open>
  The result of the containment scan of \<^verbatim>\<open>getGroup\<close> for an argument: nothing when the
  argument resolves to no model, else the first known group that has the model as a child.
\<close>

definition containmentScan ::
  "('v, 's) externals \<Rightarrow> 'a surface_scheme \<Rightarrow> elem_ref \<Rightarrow> gfx_model option" where
  "containmentScan ext s elem =
     (case resolveModel s elem of
        None \<Rightarrow> None
      | Some m \<Rightarrow> scanGroups (hasChild ext) m (groupLikeModels s))"

text \<open>
  Two more cache states: an entry for an id that resolves to no model, and an entry that
  is the empty string.
\<close>

definition ghost_entry_surface :: surface where
  "ghost_entry_surface =
     empty_surface\<lparr> groupLikeModels := [(''group-fallback'', fallback_group)],
                     parentGroupMap := [''ghost'' \<mapsto> ''stale-group-id''] \<rparr>"

definition empty_id_cache_surface :: surface where
  "empty_id_cache_surface =
     empty_surface\<lparr> elementModels := [(''shape-1'', test_shape)],
                     groupLikeModels := [(''group-old'', emptied_group)],
                     parentGroupMap := [''shape-1'' \<mapsto> []] \<rparr>"



section \<open>Properties\<close>

lemma deleteIfParent_apply:
  "deleteIfParent g pm c x = (if x = c \<and> pm c = Some g then None else pm x)"
  by (simp add: deleteIfParent_def)

lemma foldl_deleteIfParent_apply:
  "foldl (deleteIfParent g) pm prev x =
     (if x \<in> set prev \<and> pm x = Some g then None else pm x)"
proof (induction prev arbitrary: pm)
  case Nil
  show ?case by simp
next
  case (Cons c cs)
  have "foldl (deleteIfParent g) pm (c # cs) x = foldl (deleteIfParent g) (deleteIfParent g pm c) cs x"
    by simp
  also have "\<dots> = (if x \<in> set cs \<and> deleteIfParent g pm c x = Some g then None
                    else deleteIfParent g pm c x)"
    by (rule Cons.IH)
  also have "\<dots> = (if x \<in> set (c # cs) \<and> pm x = Some g then None else pm x)"
    by (auto simp: deleteIfParent_def)
  finally show ?case .
qed

lemma removePreviousChildren_apply:
  "removePreviousChildren g prev pm x =
     (if x \<in> set prev \<and> pm x = Some g then None else pm x)"
  unfolding removePreviousChildren_def by (rule foldl_deleteIfParent_apply)

lemma setNextChildren_apply:
  "setNextChildren g cs pm x = (if x \<in> set cs then Some g else pm x)"
  unfolding setNextChildren_def
  by (induction cs arbitrary: pm) auto

lemma sync_parent_apply:
  "parentGroupMap (syncGroupChildrenIndex g cs prevOpt s) x =
     (if x \<in> set cs then Some g
      else removePreviousChildren g
             (case prevOpt of Some p \<Rightarrow> p
              | None \<Rightarrow> (case groupChildIdsMap s g of Some cs' \<Rightarrow> cs' | None \<Rightarrow> []))
             (parentGroupMap s) x)"
  by (simp add: syncGroupChildrenIndex_def Let_def setNextChildren_apply)

lemma sync_children_snapshot:
  "groupChildIdsMap (syncGroupChildrenIndex g cs prevOpt s) = (groupChildIdsMap s)(g \<mapsto> cs)"
  by (simp add: syncGroupChildrenIndex_def Let_def)

text \<open>
  C8. \<^verbatim>\<open>_syncGroupChildrenIndex\<close> is idempotent: after a call for group \<open>G\<close> with child
  list \<open>C\<close> (whatever previous list that call was given), a second call
  \<^verbatim>\<open>_syncGroupChildrenIndex(G, C)\<close> leaves the parent index and the children snapshot,
  as id-to-value mappings, exactly as the first call left them.
\<close>

theorem syncGroupChildrenIndex_idempotent:
  "syncGroupChildrenIndex G C None (syncGroupChildrenIndex G C prevOpt s)
     = syncGroupChildrenIndex G C prevOpt s"
proof -
  let ?s1 = "syncGroupChildrenIndex G C prevOpt s"
  have snap: "groupChildIdsMap ?s1 G = Some C"
    by (simp add: sync_children_snapshot)
  have par: "parentGroupMap (syncGroupChildrenIndex G C None ?s1) = parentGroupMap ?s1"
  proof
    fix x
    show "parentGroupMap (syncGroupChildrenIndex G C None ?s1) x = parentGroupMap ?s1 x"
      by (simp add: sync_parent_apply [of G C None ?s1] snap removePreviousChildren_apply)
        (simp add: sync_parent_apply)
  qed
  have chi: "groupChildIdsMap (syncGroupChildrenIndex G C None ?s1) = groupChildIdsMap ?s1"
    by (simp add: sync_children_snapshot)
  have more: "group_index.more (syncGroupChildrenIndex G C None ?s1) = group_index.more ?s1"
    by (simp add: syncGroupChildrenIndex_def Let_def)
  show ?thesis
    using par chi more by (rule group_index.equality)
qed

text \<open>
  C9. A child whose parent-index entry points at a group \<open>H\<close> other than \<open>G\<close> keeps that
  entry under \<^verbatim>\<open>_removeGroupFromChildrenIndex(G)\<close> and under the remove-previous-children
  phase of \<^verbatim>\<open>_syncGroupChildrenIndex(G, nextChildIds, previousChildIds)\<close>, whatever the
  previous list is; the whole resync keeps it too unless the child is in \<open>nextChildIds\<close>.
  Cleaning up \<open>G\<close> never clobbers another group's claim on a shared child.
\<close>

theorem group_cleanup_keeps_foreign_parent:
  assumes "parentGroupMap s childId = Some H" and "H \<noteq> G"
  shows "parentGroupMap (removeGroupFromChildrenIndex G s) childId = Some H
       \<and> removePreviousChildren G previousChildIds (parentGroupMap s) childId = Some H
       \<and> (childId \<notin> set nextChildIds \<longrightarrow>
            parentGroupMap (syncGroupChildrenIndex G nextChildIds prevOpt s) childId = Some H)"
  using assms
  by (simp add: removeGroupFromChildrenIndex_def Let_def removePreviousChildren_apply sync_parent_apply)

theorem group_cleanup_keeps_foreign_parent_witness:
  "parentGroupMap two_group_index ''b'' = Some ''group-2'' \<and> ''group-2'' \<noteq> ''group-1''
   \<and> parentGroupMap (removeGroupFromChildrenIndex ''group-1'' two_group_index) ''b'' = Some ''group-2''
   \<and> removePreviousChildren ''group-1'' [''a'', ''b''] (parentGroupMap two_group_index) ''b''
        = Some ''group-2''
   \<and> parentGroupMap (syncGroupChildrenIndex ''group-1'' [''a''] None two_group_index) ''b''
        = Some ''group-2''
   \<and> parentGroupMap (removeGroupFromChildrenIndex ''group-1'' two_group_index) ''a'' = None"
proof -
  have h1: "parentGroupMap two_group_index ''b'' = Some ''group-2''"
    by (simp add: two_group_index_def)
  have h2: "''group-2'' \<noteq> ''group-1''" by simp
  have a: "parentGroupMap (removeGroupFromChildrenIndex ''group-1'' two_group_index) ''a'' = None"
    by (simp add: two_group_index_def removeGroupFromChildrenIndex_def removePreviousChildren_def
        deleteIfParent_def)
  show ?thesis
    using h1 h2 a
      group_cleanup_keeps_foreign_parent [OF h1 h2, of "[''a'', ''b'']" "[''a'']" None]
    by simp
qed

text \<open>
  C10. \<^verbatim>\<open>deleteElement\<close> checks the read-only flag before the existence of the element:
  while the store is read-only it throws the read-only error for every id, also for an id
  with no live element.
\<close>

theorem deleteElement_readonly_first:
  assumes "readonly s"
  shows "deleteElement ext ident s = Inl (Error ''Cannot remove element in readonly mode'')"
  using assms by (simp add: deleteElement_def)

theorem deleteElement_readonly_first_witness:
  "readonly (empty_surface\<lparr>readonly := True\<rparr>)
   \<and> \<not> hasElementById (empty_surface\<lparr>readonly := True\<rparr>) ''missing''
   \<and> deleteElement inert_externals ''missing'' (empty_surface\<lparr>readonly := True\<rparr>)
        = Inl (Error ''Cannot remove element in readonly mode'')"
proof -
  have h: "readonly (empty_surface\<lparr>readonly := True\<rparr>)" by simp
  have m: "\<not> hasElementById (empty_surface\<lparr>readonly := True\<rparr>) ''missing''"
    by (simp add: hasElementById_def empty_surface_def)
  show ?thesis
    using h m deleteElement_readonly_first [OF h, of inert_externals "''missing''"] by simp
qed

text \<open>
  C6. For an id with no live element, while the store is writable:
  \<^verbatim>\<open>updateElement\<close> throws the error \<^verbatim>\<open>Element <id> is not found\<close>, whereas
  \<^verbatim>\<open>deleteElement\<close> returns normally and leaves the whole state unchanged.
\<close>

theorem missing_element_update_throws_delete_noop:
  assumes "\<not> readonly s" and "getElementById s ident = None"
  shows "updateElement ext ident props s = Inl (Error (''Element '' @ ident @ '' is not found''))
       \<and> deleteElement ext ident s = Inr s"
  using assms by (simp add: updateElement_def deleteElement_def hasElementById_def getElementById_def)

theorem missing_element_update_throws_delete_noop_witness:
  "\<not> readonly empty_surface \<and> getElementById empty_surface ''missing'' = None
   \<and> updateElement inert_externals ''missing'' [(''rotate'', 10)] empty_surface
        = Inl (Error ''Element missing is not found'')
   \<and> deleteElement inert_externals ''missing'' empty_surface = Inr empty_surface"
proof -
  have h1: "\<not> readonly empty_surface" by (simp add: empty_surface_def)
  have h2: "getElementById empty_surface ''missing'' = None"
    by (simp add: getElementById_def empty_surface_def)
  show ?thesis
    using h1 h2
      missing_element_update_throws_delete_noop [OF h1 h2, of inert_externals "[(''rotate'', 10)]"]
    by simp
qed

text \<open>
  On a group graph without infinite parent chains both ancestor walks terminate and compute
  what their names say: \<^verbatim>\<open>getTopElements\<close> keeps, in first-occurrence order, exactly the
  input elements none of whose ancestors is in the input.
\<close>

lemma chainMeets_None: "\<not> chainMeets groupOf selected None"
  by (simp add: chainMeets_def)

lemma chainMeets_Some:
  "chainMeets groupOf selected (Some a)
     \<longleftrightarrow> a \<in> selected \<or> chainMeets groupOf selected (groupOf a)"
proof
  assume "chainMeets groupOf selected (Some a)"
  then obtain n b where nb: "nthAncestor groupOf n a = Some b" "b \<in> selected"
    by (auto simp: chainMeets_def)
  show "a \<in> selected \<or> chainMeets groupOf selected (groupOf a)"
  proof (cases n)
    case 0
    with nb show ?thesis by simp
  next
    case (Suc m)
    with nb show ?thesis
      by (auto simp: chainMeets_def split: option.splits)
  qed
next
  assume "a \<in> selected \<or> chainMeets groupOf selected (groupOf a)"
  then show "chainMeets groupOf selected (Some a)"
  proof
    assume "a \<in> selected"
    then have "nthAncestor groupOf 0 a = Some a \<and> a \<in> selected" by simp
    then show ?thesis unfolding chainMeets_def by blast
  next
    assume "chainMeets groupOf selected (groupOf a)"
    then obtain p n b where "groupOf a = Some p" "nthAncestor groupOf n p = Some b" "b \<in> selected"
      by (auto simp: chainMeets_def)
    then have "nthAncestor groupOf (Suc n) a = Some b \<and> b \<in> selected" by simp
    then show ?thesis unfolding chainMeets_def by blast
  qed
qed

lemma selectedAncestorWalk_acyclic:
  assumes "acyclic_groups groupOf"
  shows "selectedAncestorWalk groupOf selected start = Some (chainMeets groupOf selected start)"
proof (cases start)
  case None
  then show ?thesis
    by (simp add: selectedAncestorWalk.simps chainMeets_None)
next
  case (Some a0)
  have wf: "wf {(p, a). groupOf a = Some p}"
    using assms by (simp add: acyclic_groups_def)
  have "selectedAncestorWalk groupOf selected (Some a)
          = Some (chainMeets groupOf selected (Some a))" for a
  proof (induction a rule: wf_induct_rule [OF wf])
    case (1 a)
    show ?case
    proof (cases "a \<in> selected")
      case True
      then show ?thesis
        by (subst selectedAncestorWalk.simps) (simp add: chainMeets_Some)
    next
      case False
      show ?thesis
      proof (cases "groupOf a")
        case None
        have "selectedAncestorWalk groupOf selected (Some a)
                = selectedAncestorWalk groupOf selected None"
          using False None by (subst selectedAncestorWalk.simps) simp
        also have "\<dots> = Some False"
          by (subst selectedAncestorWalk.simps) simp
        finally show ?thesis
          using False None by (simp add: chainMeets_Some [of groupOf selected a] chainMeets_None)
      next
        case (Some p)
        have "selectedAncestorWalk groupOf selected (Some a)
                = selectedAncestorWalk groupOf selected (Some p)"
          using False Some by (subst selectedAncestorWalk.simps) simp
        also have "\<dots> = Some (chainMeets groupOf selected (Some p))"
          using "1.IH" [of p] Some by simp
        finally show ?thesis
          using False Some by (simp add: chainMeets_Some [of groupOf selected a])
      qed
    qed
  qed
  with Some show ?thesis by simp
qed

lemma topElementsLoop_acyclic:
  assumes "acyclic_groups groupOf"
  shows "topElementsLoop groupOf selected elements topElements
           = Some (topElements
                   @ filter (\<lambda>e. \<not> chainMeets groupOf selected (groupOf e)) elements)"
  by (induction elements arbitrary: topElements)
    (simp_all add: selectedAncestorWalk_acyclic [OF assms])

lemma set_foldl_setAdd: "set (foldl setAdd acc xs) = set acc \<union> set xs"
  by (induction xs arbitrary: acc) auto

lemma distinct_foldl_setAdd: "distinct acc \<Longrightarrow> distinct (foldl setAdd acc xs)"
  by (induction xs arbitrary: acc) auto

lemma newSet_set: "set (newSet xs) = set xs" and newSet_distinct: "distinct (newSet xs)"
  by (simp_all add: newSet_def set_foldl_setAdd distinct_foldl_setAdd)

lemma getTopElements_acyclic:
  assumes "acyclic_groups groupOf"
  shows "getTopElements groupOf elements
           = Some (filter (\<lambda>e. \<not> chainMeets groupOf (set elements) (groupOf e)) (newSet elements))"
  by (simp add: getTopElements_def Let_def topElementsLoop_acyclic [OF assms] newSet_set)

lemma containerWalk_acyclic:
  assumes "acyclic_groups groupOf"
  shows "containerWalk groupOf container start = Some (chainMeets groupOf {container} start)"
proof (cases start)
  case None
  then show ?thesis
    by (simp add: containerWalk.simps chainMeets_None)
next
  case (Some a0)
  have wf: "wf {(p, a). groupOf a = Some p}"
    using assms by (simp add: acyclic_groups_def)
  have "containerWalk groupOf container (Some a)
          = Some (chainMeets groupOf {container} (Some a))" for a
  proof (induction a rule: wf_induct_rule [OF wf])
    case (1 a)
    show ?case
    proof (cases "a = container")
      case True
      then show ?thesis
        by (subst containerWalk.simps) (simp add: chainMeets_Some)
    next
      case False
      show ?thesis
      proof (cases "groupOf a")
        case None
        have "containerWalk groupOf container (Some a) = containerWalk groupOf container None"
          using False None by (subst containerWalk.simps) simp
        also have "\<dots> = Some False"
          by (subst containerWalk.simps) simp
        finally show ?thesis
          using False None by (simp add: chainMeets_Some [of groupOf "{container}" a] chainMeets_None)
      next
        case (Some p)
        have "containerWalk groupOf container (Some a) = containerWalk groupOf container (Some p)"
          using False Some by (subst containerWalk.simps) simp
        also have "\<dots> = Some (chainMeets groupOf {container} (Some p))"
          using "1.IH" [of p] Some by simp
        finally show ?thesis
          using False Some by (simp add: chainMeets_Some [of groupOf "{container}" a])
      qed
    qed
  qed
  with Some show ?thesis by simp
qed

lemma hasDescendantElementImpl_acyclic:
  assumes "acyclic_groups groupOf"
  shows "hasDescendantElementImpl groupOf container element
           = Some (chainMeets groupOf {container} (groupOf element))"
  by (simp add: hasDescendantElementImpl_def containerWalk_acyclic [OF assms])

lemma selectedAncestorWalk_cycle_aux:
  assumes run: "selectedAncestorWalk groupOf selected x = Some y"
  shows "closed_cycle groupOf C \<longrightarrow> C \<inter> selected = {} \<longrightarrow> (\<forall>a \<in> C. x \<noteq> Some a)"
proof (rule selectedAncestorWalk.raw_induct
    [where P = "\<lambda>g s x y. closed_cycle g C \<longrightarrow> C \<inter> s = {} \<longrightarrow> (\<forall>a \<in> C. x \<noteq> Some a)", OF _ run])
  fix walk :: "('a \<Rightarrow> 'a option) \<Rightarrow> 'a set \<Rightarrow> 'a option \<Rightarrow> bool option"
    and g s ancestor r
  assume IH: "\<And>g s x y. walk g s x = Some y \<Longrightarrow>
      closed_cycle g C \<longrightarrow> C \<inter> s = {} \<longrightarrow> (\<forall>a \<in> C. x \<noteq> Some a)"
    and step: "(case ancestor of None \<Rightarrow> Some False
                | Some a \<Rightarrow> if a \<in> s then Some True else walk g s (g a)) = Some r"
  show "closed_cycle g C \<longrightarrow> C \<inter> s = {} \<longrightarrow> (\<forall>a \<in> C. ancestor \<noteq> Some a)"
  proof (intro impI ballI notI)
    fix a
    assume cyc: "closed_cycle g C" and dis: "C \<inter> s = {}" and a: "a \<in> C"
      and anc: "ancestor = Some a"
    from cyc a obtain b where b: "b \<in> C" "g a = Some b"
      by (auto simp: closed_cycle_def)
    from a dis have "a \<notin> s" by auto
    with step anc b have "walk g s (Some b) = Some r" by simp
    then have "closed_cycle g C \<longrightarrow> C \<inter> s = {} \<longrightarrow> (\<forall>a \<in> C. Some b \<noteq> Some a)"
      by (rule IH)
    with cyc dis have "\<forall>a \<in> C. Some b \<noteq> Some a" by simp
    with b(1) show False by blast
  qed
qed

lemma selectedAncestorWalk_cycle:
  assumes "closed_cycle groupOf C" "C \<inter> selected = {}" "a \<in> C"
  shows "selectedAncestorWalk groupOf selected (Some a) = None"
proof (cases "selectedAncestorWalk groupOf selected (Some a)")
  case None
  then show ?thesis .
next
  case (Some y)
  from selectedAncestorWalk_cycle_aux [OF Some, of C] assms(1,2)
  have "\<forall>c \<in> C. Some a \<noteq> Some c" by simp
  with assms(3) show ?thesis by blast
qed


lemma containerWalk_cycle_aux:
  assumes run: "containerWalk groupOf container x = Some y"
  shows "closed_cycle groupOf C \<longrightarrow> container \<notin> C \<longrightarrow> (\<forall>a \<in> C. x \<noteq> Some a)"
proof (rule containerWalk.raw_induct
    [where P = "\<lambda>g k x y. closed_cycle g C \<longrightarrow> k \<notin> C \<longrightarrow> (\<forall>a \<in> C. x \<noteq> Some a)", OF _ run])
  fix walk :: "('a \<Rightarrow> 'a option) \<Rightarrow> 'a \<Rightarrow> 'a option \<Rightarrow> bool option"
    and g k c r
  assume IH: "\<And>g k x y. walk g k x = Some y \<Longrightarrow>
      closed_cycle g C \<longrightarrow> k \<notin> C \<longrightarrow> (\<forall>a \<in> C. x \<noteq> Some a)"
    and step: "(case c of None \<Rightarrow> Some False
                | Some a \<Rightarrow> if a = k then Some True else walk g k (g a)) = Some r"
  show "closed_cycle g C \<longrightarrow> k \<notin> C \<longrightarrow> (\<forall>a \<in> C. c \<noteq> Some a)"
  proof (intro impI ballI notI)
    fix a
    assume cyc: "closed_cycle g C" and out: "k \<notin> C" and a: "a \<in> C" and c: "c = Some a"
    from cyc a obtain b where b: "b \<in> C" "g a = Some b"
      by (auto simp: closed_cycle_def)
    from a out have "a \<noteq> k" by auto
    with step c b have "walk g k (Some b) = Some r" by simp
    then have "closed_cycle g C \<longrightarrow> k \<notin> C \<longrightarrow> (\<forall>a \<in> C. Some b \<noteq> Some a)"
      by (rule IH)
    with cyc out have "\<forall>a \<in> C. Some b \<noteq> Some a" by simp
    with b(1) show False by blast
  qed
qed

lemma containerWalk_cycle:
  assumes "closed_cycle groupOf C" "container \<notin> C" "a \<in> C"
  shows "containerWalk groupOf container (Some a) = None"
proof (cases "containerWalk groupOf container (Some a)")
  case None
  then show ?thesis .
next
  case (Some y)
  from containerWalk_cycle_aux [OF Some, of C] assms(1,2)
  have "\<forall>c \<in> C. Some a \<noteq> Some c" by simp
  with assms(3) show ?thesis by blast
qed

lemma cyclic_groupOf_closed: "closed_cycle cyclic_groupOf {''group-a'', ''group-b''}"
  by (simp add: closed_cycle_def cyclic_groupOf_def)

text \<open>
  C1. On the cyclic group graph where \<^verbatim>\<open>group-a\<close> and \<^verbatim>\<open>group-b\<close> contain each other
  and \<^verbatim>\<open>leaf\<close> is a child of \<^verbatim>\<open>group-a\<close>, the ancestor walk of
  \<^verbatim>\<open>getTopElements([leaf])\<close> and the containment walk of
  \<^verbatim>\<open>hasDescendantElementImpl(frame, leaf)\<close> never exit their \<^verbatim>\<open>while\<close> loop (the value
  \<open>None\<close> of the loop functions): neither walk has a visited-set guard.
\<close>

theorem ancestor_walks_diverge_on_cycle:
  "getTopElements cyclic_groupOf [''leaf''] = None
   \<and> hasDescendantElementImpl cyclic_groupOf ''frame'' ''leaf'' = None"
proof -
  have "selectedAncestorWalk cyclic_groupOf {''leaf''} (Some ''group-a'') = None"
    by (rule selectedAncestorWalk_cycle [OF cyclic_groupOf_closed]) simp_all
  then have top: "getTopElements cyclic_groupOf [''leaf''] = None"
    by (simp add: getTopElements_def newSet_def cyclic_groupOf_def)
  have "containerWalk cyclic_groupOf ''frame'' (Some ''group-a'') = None"
    by (rule containerWalk_cycle [OF cyclic_groupOf_closed]) simp_all
  then have desc: "hasDescendantElementImpl cyclic_groupOf ''frame'' ''leaf'' = None"
    by (simp add: hasDescendantElementImpl_def cyclic_groupOf_def)
  from top desc show ?thesis by simp
qed

lemma push_extends_refl: "push_extends vs vs"
  by (simp add: push_extends_def)

lemma push_extends_trans:
  assumes "push_extends a b" "push_extends b c"
  shows "push_extends a c"
proof -
  from assms(1) obtain n1 where n1: "snd b = snd a @ n1" "distinct n1" "fst b = fst a \<union> set n1"
      "set n1 \<inter> fst a = {}"
    by (auto simp: push_extends_def)
  from assms(2) obtain n2 where n2: "snd c = snd b @ n2" "distinct n2" "fst c = fst b \<union> set n2"
      "set n2 \<inter> fst b = {}"
    by (auto simp: push_extends_def)
  have "snd c = snd a @ (n1 @ n2)" using n1 n2 by simp
  moreover have "distinct (n1 @ n2)" using n1 n2 by auto
  moreover have "fst c = fst a \<union> set (n1 @ n2)" using n1 n2 by auto
  moreover have "set (n1 @ n2) \<inter> fst a = {}" using n1 n2 by auto
  ultimately show ?thesis unfolding push_extends_def by blast
qed

lemma push_extends_visit:
  assumes "element \<notin> fst vs"
  shows "push_extends vs (insert element (fst vs), snd vs @ [element])"
  unfolding push_extends_def using assms by (intro exI [of _ "[element]"]) auto

lemma push_traverse_invariant:
  "pre = Some pushResult \<Longrightarrow> post = None \<Longrightarrow>
     push_extends vs (innerTraverse g pre post element vs)"
  "pre = Some pushResult \<Longrightarrow> post = None \<Longrightarrow>
     push_extends vs (forEachChild g pre post children vs)"
proof (induction g pre post element vs and g pre post children vs
        rule: innerTraverse_forEachChild.induct)
  case (1 g pre post element vs)
  show ?case
  proof (cases "element \<in> fst vs")
    case True
    then show ?thesis by (simp add: innerTraverse.simps push_extends_refl)
  next
    case False
    let ?vs1 = "(insert element (fst vs), snd vs @ [element])"
    have pre: "runPre pre element (snd vs) = (False, snd vs @ [element])"
      using "1.prems" by (simp add: runPre_def pushResult_def)
    have step: "push_extends vs ?vs1"
      using False by (rule push_extends_visit)
    show ?thesis
    proof (cases "childElements g element")
      case None
      then show ?thesis
        using False pre step "1.prems" by (simp add: innerTraverse.simps runPost_def)
    next
      case (Some children)
      have "push_extends ?vs1 (forEachChild g pre post children ?vs1)"
        using "1.IH" [OF False _ Some] pre "1.prems" by simp
      with step have "push_extends vs (forEachChild g pre post children ?vs1)"
        by (rule push_extends_trans)
      then show ?thesis
        using False pre Some "1.prems" by (simp add: innerTraverse.simps runPost_def)
    qed
  qed
next
  case (2 g pre post vs)
  show ?case by (simp add: push_extends_refl)
next
  case (3 g pre post child rest vs)
  have "push_extends vs (innerTraverse g pre post child vs)"
    using "3.IH"(1) "3.prems" by simp
  moreover have "push_extends (innerTraverse g pre post child vs)
       (forEachChild g pre post rest (innerTraverse g pre post child vs))"
    using "3.IH"(2) "3.prems" by simp
  ultimately show ?case
    by (simp add: push_extends_trans)
qed

lemma traverse_push_distinct:
  "distinct (traverse g child (Some pushResult) None [])"
  using push_traverse_invariant(1) [of "Some pushResult" None "({}, [])" g child]
  by (auto simp: push_extends_def traverse_def)


lemma push_traverse_prefix:
  "pre = Some pushResult \<Longrightarrow> post = None \<Longrightarrow>
     innerTraverse g pre post element (fst vs, r @ snd vs)
       = (fst (innerTraverse g pre post element vs), r @ snd (innerTraverse g pre post element vs))"
  "pre = Some pushResult \<Longrightarrow> post = None \<Longrightarrow>
     forEachChild g pre post children (fst vs, r @ snd vs)
       = (fst (forEachChild g pre post children vs), r @ snd (forEachChild g pre post children vs))"
proof (induction g pre post element vs and g pre post children vs
        rule: innerTraverse_forEachChild.induct)
  case (1 g pre post element vs)
  show ?case
  proof (cases "element \<in> fst vs")
    case True
    then show ?thesis by (simp add: innerTraverse.simps)
  next
    case False
    let ?vs1 = "(insert element (fst vs), snd vs @ [element])"
    have pre: "runPre pre element (snd vs) = (False, snd vs @ [element])"
         "runPre pre element (r @ snd vs) = (False, r @ snd vs @ [element])"
      using "1.prems" by (simp_all add: runPre_def pushResult_def)
    show ?thesis
    proof (cases "childElements g element")
      case None
      then show ?thesis
        using False pre "1.prems" by (simp add: innerTraverse.simps runPost_def)
    next
      case (Some children)
      have "forEachChild g pre post children (fst ?vs1, r @ snd ?vs1)
              = (fst (forEachChild g pre post children ?vs1),
                 r @ snd (forEachChild g pre post children ?vs1))"
        using "1.IH" [OF False _ Some] pre "1.prems" by simp
      then show ?thesis
        using False pre Some "1.prems" by (simp add: innerTraverse.simps runPost_def)
    qed
  qed
next
  case (2 g pre post vs)
  show ?case by simp
next
  case (3 g pre post child rest vs)
  let ?m = "innerTraverse g pre post child vs"
  have a: "innerTraverse g pre post child (fst vs, r @ snd vs) = (fst ?m, r @ snd ?m)"
    using "3.IH"(1) "3.prems" by simp
  have b: "forEachChild g pre post rest (fst ?m, r @ snd ?m)
             = (fst (forEachChild g pre post rest ?m), r @ snd (forEachChild g pre post rest ?m))"
    using "3.IH"(2) "3.prems" by simp
  show ?case
    by (simp add: a b)
qed

lemma traverse_push_append:
  "traverse g child (Some pushResult) None results
     = results @ traverse g child (Some pushResult) None []"
  using push_traverse_prefix(1) [of "Some pushResult" None g child "({}, [])" results]
  by (simp add: traverse_def)

lemma descendantElementsImpl_concat_aux:
  "foldl (\<lambda>results child. traverse g child (Some pushResult) None results) acc cs
     = acc @ concat (map (\<lambda>child. traverse g child (Some pushResult) None []) cs)"
proof (induction cs arbitrary: acc)
  case Nil
  show ?case by simp
next
  case (Cons c cs)
  show ?case
    by (simp add: Cons.IH traverse_push_append [of g c acc])
qed


lemmas traverse_eval =
  descendantElementsImpl_def traverse_def innerTraverse.simps runPre_def runPost_def
  pushResult_def childElements_def

text \<open>
  C5. On the cyclic group graph with \<^verbatim>\<open>group-a = [group-b, leaf]\<close> and
  \<^verbatim>\<open>group-b = [group-a]\<close>, \<^verbatim>\<open>descendantElementsImpl(group-a)\<close> terminates but lists
  \<^verbatim>\<open>leaf\<close> twice: once in the traversal from \<^verbatim>\<open>group-b\<close> and once in the traversal from
  \<^verbatim>\<open>leaf\<close>, which starts with a fresh visited set. The result is not a list of unique
  elements, as the claim and the tree test require of a cyclic graph.
\<close>

theorem descendantElementsImpl_duplicates_on_cycle:
  "descendantElementsImpl shared_child_graph ''group-a''
     = [''group-b'', ''group-a'', ''leaf'', ''leaf'']
   \<and> \<not> distinct (descendantElementsImpl shared_child_graph ''group-a'')"
  by (simp add: shared_child_graph_def traverse_eval)

text \<open>
  What the visited set of \<^verbatim>\<open>traverse\<close> does achieve: on every group graph, cyclic or not,
  \<^verbatim>\<open>descendantElementsImpl\<close> terminates (the traversal is a total function) and is the
  concatenation of one traversal per direct child of the container; within the traversal
  from one child no element appears twice. For the 2-cycle of the tree test, where \<open>a\<close>
  contains \<open>b\<close> and \<open>b\<close> contains \<open>a\<close>, the result is \<open>[b, a]\<close>.
\<close>

lemma descendantElementsImpl_unique_per_child:
  "descendantElementsImpl g container
     = concat (map (\<lambda>child. traverse g child (Some pushResult) None [])
         (case childElements g container of Some children \<Rightarrow> children | None \<Rightarrow> []))
   \<and> distinct (traverse g child (Some pushResult) None [])
   \<and> (a \<noteq> b \<longrightarrow> descendantElementsImpl [(a, [b]), (b, [a])] a = [b, a])"
proof -
  have "a \<noteq> b \<Longrightarrow> descendantElementsImpl [(a, [b]), (b, [a])] a = [b, a]"
    by (simp add: traverse_eval)
  then show ?thesis
    by (simp add: descendantElementsImpl_def descendantElementsImpl_concat_aux traverse_push_distinct)
qed

lemma descendantElementsImpl_unique_per_child_example:
  "''group-a'' \<noteq> ''group-b''
   \<and> descendantElementsImpl [(''group-a'', [''group-b'']), (''group-b'', [''group-a''])] ''group-a''
        = [''group-b'', ''group-a'']
   \<and> distinct (traverse shared_child_graph ''group-b'' (Some pushResult) None [])
   \<and> descendantElementsImpl shared_child_graph ''group-a''
        = traverse shared_child_graph ''group-b'' (Some pushResult) None []
          @ traverse shared_child_graph ''leaf'' (Some pushResult) None []"
proof -
  have ne: "''group-a'' \<noteq> ''group-b''" by simp
  have ch: "childElements shared_child_graph ''group-a'' = Some [''group-b'', ''leaf'']"
    by (simp add: shared_child_graph_def childElements_def)
  show ?thesis
    using ne ch
      descendantElementsImpl_unique_per_child
        [of shared_child_graph "''group-a''" "''group-b''" "''group-a''" "''group-b''"]
      descendantElementsImpl_unique_per_child
        [of "[(''group-a'', [''group-b'']), (''group-b'', [''group-a''])]" "''group-a''"
            "''group-b''" "''group-a''" "''group-b''"]
    by simp
qed

text \<open>
  C2, as stated, fails: the cached parent \<^verbatim>\<open>group-old\<close> is a known group that no longer
  contains \<^verbatim>\<open>shape-1\<close>, and the scan would find \<^verbatim>\<open>group-fallback\<close>; still
  \<^verbatim>\<open>getGroup\<close> returns \<^verbatim>\<open>group-old\<close> and leaves the cache entry in place. The code
  tests that the cached id names a known group, not that the group contains the element.
\<close>

theorem getGroup_trusts_known_cached_parent_counterexample:
  "parentGroupMap moved_child_surface ''shape-1'' = Some ''group-old''
   \<and> \<not> hasChild inert_externals emptied_group test_shape
   \<and> scanGroups (hasChild inert_externals) test_shape (groupLikeModels moved_child_surface)
        = Some fallback_group
   \<and> getGroup inert_externals (ById ''shape-1'') moved_child_surface
        = (Some emptied_group, moved_child_surface)
   \<and> emptied_group \<noteq> fallback_group"
  by (simp add: moved_child_surface_def empty_surface_def inert_externals_def containsChild_def
      emptied_group_def fallback_group_def test_shape_def getGroup_def elemId_def truthy_def
      Let_def)

lemma resolveModel_parent_update:
  "resolveModel (s\<lparr> parentGroupMap := m \<rparr>) elem = resolveModel s elem"
  by (auto simp: resolveModel_def getElementById_def getBlock_def
      split: elem_ref.splits option.splits)

lemma getGroup_after_lookup:
  assumes "\<not> truthy (parentGroupMap s (elemId elem))
           \<or> map_of (groupLikeModels s) (the (parentGroupMap s (elemId elem))) = None"
  shows "getGroup ext elem s =
     (let s1 = (if truthy (parentGroupMap s (elemId elem))
                then s\<lparr> parentGroupMap := (parentGroupMap s)(elemId elem := None) \<rparr> else s)
      in case containmentScan ext s elem of
           None \<Rightarrow> (None, s1)
         | Some grp \<Rightarrow>
             (Some grp, s1\<lparr> parentGroupMap := (parentGroupMap s1)(elemId elem \<mapsto> model_id grp) \<rparr>))"
proof (cases "truthy (parentGroupMap s (elemId elem))")
  case True
  with assms have "map_of (groupLikeModels s) (the (parentGroupMap s (elemId elem))) = None"
    by simp
  with True show ?thesis
    by (simp add: getGroup_def containmentScan_def resolveModel_parent_update Let_def
        split: option.splits)
next
  case False
  then show ?thesis
    by (simp add: getGroup_def containmentScan_def Let_def split: option.splits)
qed

text \<open>
  C2, amended. A cached parent id that is not empty and names a known group is returned as
  it is, with no containment check and no change of state. When the cached parent id is not
  empty and names no known group, the stale entry is purged and \<^verbatim>\<open>getGroup\<close> returns the
  result of the linear containment scan over all known groups (\<^verbatim>\<open>null\<close> when no group
  contains the element, and when the id resolves to no model), caching the id of a found
  group. On a cache miss it performs the same scan and caches the id of a found group. A
  cached empty string counts as a miss: the same scan, and the entry is replaced by a found
  group's id and otherwise left in place.
\<close>

theorem getGroup_cache_cases:
  "(parentGroupMap s (elemId elem) = Some p \<and> p \<noteq> []
      \<and> map_of (groupLikeModels s) p = Some grp
     \<longrightarrow> getGroup ext elem s = (Some grp, s))
   \<and> (parentGroupMap s (elemId elem) = Some p \<and> p \<noteq> []
      \<and> map_of (groupLikeModels s) p = None
     \<longrightarrow> getGroup ext elem s
           = (containmentScan ext s elem,
              s\<lparr> parentGroupMap := (parentGroupMap s)
                    (elemId elem := map_option model_id (containmentScan ext s elem)) \<rparr>))
   \<and> (parentGroupMap s (elemId elem) = None
     \<longrightarrow> getGroup ext elem s
           = (containmentScan ext s elem,
              s\<lparr> parentGroupMap := (parentGroupMap s)
                    (elemId elem := map_option model_id (containmentScan ext s elem)) \<rparr>))
   \<and> (parentGroupMap s (elemId elem) = Some []
     \<longrightarrow> getGroup ext elem s
           = (containmentScan ext s elem,
              case containmentScan ext s elem of
                None \<Rightarrow> s
              | Some found \<Rightarrow>
                  s\<lparr> parentGroupMap := (parentGroupMap s)(elemId elem \<mapsto> model_id found) \<rparr>))"
proof (intro conjI impI)
  assume "parentGroupMap s (elemId elem) = Some p \<and> p \<noteq> []
      \<and> map_of (groupLikeModels s) p = Some grp"
  then show "getGroup ext elem s = (Some grp, s)"
    by (simp add: getGroup_def truthy_def Let_def)
next
  assume a: "parentGroupMap s (elemId elem) = Some p \<and> p \<noteq> []
      \<and> map_of (groupLikeModels s) p = None"
  then have t: "truthy (parentGroupMap s (elemId elem))" by (simp add: truthy_def)
  have "getGroup ext elem s =
     (let s1 = (if truthy (parentGroupMap s (elemId elem))
                then s\<lparr> parentGroupMap := (parentGroupMap s)(elemId elem := None) \<rparr> else s)
      in case containmentScan ext s elem of
           None \<Rightarrow> (None, s1)
         | Some grp \<Rightarrow>
             (Some grp, s1\<lparr> parentGroupMap := (parentGroupMap s1)(elemId elem \<mapsto> model_id grp) \<rparr>))"
    by (rule getGroup_after_lookup) (use a in simp)
  then show "getGroup ext elem s
           = (containmentScan ext s elem,
              s\<lparr> parentGroupMap := (parentGroupMap s)
                    (elemId elem := map_option model_id (containmentScan ext s elem)) \<rparr>)"
    using t by (cases "containmentScan ext s elem") (simp_all add: Let_def)
next
  assume a: "parentGroupMap s (elemId elem) = None"
  then have t: "\<not> truthy (parentGroupMap s (elemId elem))" by (simp add: truthy_def)
  have same: "(parentGroupMap s)(elemId elem := None) = parentGroupMap s"
    using a by auto
  have "getGroup ext elem s =
     (let s1 = (if truthy (parentGroupMap s (elemId elem))
                then s\<lparr> parentGroupMap := (parentGroupMap s)(elemId elem := None) \<rparr> else s)
      in case containmentScan ext s elem of
           None \<Rightarrow> (None, s1)
         | Some grp \<Rightarrow>
             (Some grp, s1\<lparr> parentGroupMap := (parentGroupMap s1)(elemId elem \<mapsto> model_id grp) \<rparr>))"
    by (rule getGroup_after_lookup) (use t in simp)
  then show "getGroup ext elem s
           = (containmentScan ext s elem,
              s\<lparr> parentGroupMap := (parentGroupMap s)
                    (elemId elem := map_option model_id (containmentScan ext s elem)) \<rparr>)"
    using t same by (cases "containmentScan ext s elem") (simp_all add: Let_def)
next
  assume a: "parentGroupMap s (elemId elem) = Some []"
  then have t: "\<not> truthy (parentGroupMap s (elemId elem))" by (simp add: truthy_def)
  have "getGroup ext elem s =
     (let s1 = (if truthy (parentGroupMap s (elemId elem))
                then s\<lparr> parentGroupMap := (parentGroupMap s)(elemId elem := None) \<rparr> else s)
      in case containmentScan ext s elem of
           None \<Rightarrow> (None, s1)
         | Some grp \<Rightarrow>
             (Some grp, s1\<lparr> parentGroupMap := (parentGroupMap s1)(elemId elem \<mapsto> model_id grp) \<rparr>))"
    by (rule getGroup_after_lookup) (use t in simp)
  then show "getGroup ext elem s
           = (containmentScan ext s elem,
              case containmentScan ext s elem of
                None \<Rightarrow> s
              | Some found \<Rightarrow>
                  s\<lparr> parentGroupMap := (parentGroupMap s)(elemId elem \<mapsto> model_id found) \<rparr>)"
    using t by (cases "containmentScan ext s elem") (simp_all add: Let_def)
qed


theorem getGroup_cache_cases_witness:
  "getGroup inert_externals (ById ''shape-1'') stale_cache_surface
     = (Some fallback_group,
        stale_cache_surface\<lparr> parentGroupMap := [''shape-1'' \<mapsto> ''group-fallback''] \<rparr>)
   \<and> getGroup inert_externals (ByModel test_shape)
        (stale_cache_surface\<lparr> parentGroupMap := [''shape-1'' \<mapsto> ''group-fallback''] \<rparr>)
     = (Some fallback_group,
        stale_cache_surface\<lparr> parentGroupMap := [''shape-1'' \<mapsto> ''group-fallback''] \<rparr>)
   \<and> getGroup inert_externals (ById ''shape-1'') (stale_cache_surface\<lparr> parentGroupMap := Map.empty \<rparr>)
     = (Some fallback_group,
        stale_cache_surface\<lparr> parentGroupMap := [''shape-1'' \<mapsto> ''group-fallback''] \<rparr>)
   \<and> getGroup inert_externals (ById ''ghost'') ghost_entry_surface
     = (None, ghost_entry_surface\<lparr> parentGroupMap := Map.empty \<rparr>)
   \<and> getGroup inert_externals (ById ''shape-1'') empty_id_cache_surface
     = (None, empty_id_cache_surface)"
proof -
  let ?s2 = "stale_cache_surface\<lparr> parentGroupMap := [''shape-1'' \<mapsto> ''group-fallback''] \<rparr>"
  let ?s0 = "stale_cache_surface\<lparr> parentGroupMap := Map.empty \<rparr>"
  have scan: "containmentScan inert_externals stale_cache_surface (ById ''shape-1'')
                = Some fallback_group"
    by (simp add: containmentScan_def resolveModel_def getElementById_def stale_cache_surface_def
        empty_surface_def inert_externals_def containsChild_def fallback_group_def test_shape_def)
  have scan0: "containmentScan inert_externals ?s0 (ById ''shape-1'') = Some fallback_group"
    by (simp add: containmentScan_def resolveModel_def getElementById_def stale_cache_surface_def
        empty_surface_def inert_externals_def containsChild_def fallback_group_def test_shape_def)
  have scan_ghost: "containmentScan inert_externals ghost_entry_surface (ById ''ghost'') = None"
    by (simp add: containmentScan_def resolveModel_def getElementById_def getBlock_def
        ghost_entry_surface_def empty_surface_def)
  have scan_empty: "containmentScan inert_externals empty_id_cache_surface (ById ''shape-1'') = None"
    by (simp add: containmentScan_def resolveModel_def getElementById_def
        empty_id_cache_surface_def empty_surface_def inert_externals_def containsChild_def
        emptied_group_def test_shape_def)
  have stale: "parentGroupMap stale_cache_surface (elemId (ById ''shape-1'')) = Some ''stale-group-id''
      \<and> ''stale-group-id'' \<noteq> []
      \<and> map_of (groupLikeModels stale_cache_surface) ''stale-group-id'' = None"
    by (simp add: stale_cache_surface_def empty_surface_def elemId_def)
  have known: "parentGroupMap ?s2 (elemId (ByModel test_shape)) = Some ''group-fallback''
      \<and> ''group-fallback'' \<noteq> []
      \<and> map_of (groupLikeModels ?s2) ''group-fallback'' = Some fallback_group"
    by (simp add: stale_cache_surface_def empty_surface_def elemId_def test_shape_def)
  have miss: "parentGroupMap ?s0 (elemId (ById ''shape-1'')) = None"
    by simp
  have ghost: "parentGroupMap ghost_entry_surface (elemId (ById ''ghost'')) = Some ''stale-group-id''
      \<and> ''stale-group-id'' \<noteq> []
      \<and> map_of (groupLikeModels ghost_entry_surface) ''stale-group-id'' = None"
    by (simp add: ghost_entry_surface_def empty_surface_def elemId_def)
  have empty: "parentGroupMap empty_id_cache_surface (elemId (ById ''shape-1'')) = Some []"
    by (simp add: empty_id_cache_surface_def empty_surface_def elemId_def)
  have upd: "(parentGroupMap stale_cache_surface)(''shape-1'' \<mapsto> ''group-fallback'')
               = [''shape-1'' \<mapsto> ''group-fallback'']"
    by (simp add: stale_cache_surface_def empty_surface_def)
  have upd_ghost: "(parentGroupMap ghost_entry_surface)(''ghost'' := None) = Map.empty"
    by (simp add: ghost_entry_surface_def empty_surface_def)
  have first: "getGroup inert_externals (ById ''shape-1'') stale_cache_surface
     = (Some fallback_group, ?s2)"
    using getGroup_cache_cases
            [of stale_cache_surface "ById ''shape-1''" "''stale-group-id''" fallback_group
                inert_externals, THEN conjunct2, THEN conjunct1]
          stale scan upd
    by (simp add: elemId_def fallback_group_def)
  have second: "getGroup inert_externals (ByModel test_shape) ?s2 = (Some fallback_group, ?s2)"
    using getGroup_cache_cases
            [of ?s2 "ByModel test_shape" "''group-fallback''" fallback_group inert_externals,
             THEN conjunct1] known
    by blast
  have third: "getGroup inert_externals (ById ''shape-1'') ?s0 = (Some fallback_group, ?s2)"
    using getGroup_cache_cases
            [of ?s0 "ById ''shape-1''" "''p''" fallback_group inert_externals,
             THEN conjunct2, THEN conjunct2, THEN conjunct1]
          miss scan0
    by (simp add: elemId_def fallback_group_def)
  have fourth: "getGroup inert_externals (ById ''ghost'') ghost_entry_surface
     = (None, ghost_entry_surface\<lparr> parentGroupMap := Map.empty \<rparr>)"
    using getGroup_cache_cases
            [of ghost_entry_surface "ById ''ghost''" "''stale-group-id''" fallback_group
                inert_externals, THEN conjunct2, THEN conjunct1]
          ghost scan_ghost upd_ghost
    by (simp add: elemId_def)
  have fifth: "getGroup inert_externals (ById ''shape-1'') empty_id_cache_surface
     = (None, empty_id_cache_surface)"
    using getGroup_cache_cases
            [of empty_id_cache_surface "ById ''shape-1''" "''p''" fallback_group inert_externals,
             THEN conjunct2, THEN conjunct2, THEN conjunct2]
          empty scan_empty
    by simp
  show ?thesis
    by (intro conjI first second third fourth fifth)
qed

lemma generateOneByOne_length:
  "generateOneByOne gen1 els cursor right = Inr ks \<Longrightarrow> length ks = length els"
  by (induction els arbitrary: cursor ks) (auto split: sum.splits)

lemma generateOneByOne_sorted:
  assumes "single_contract gen1"
    and "generateOneByOne gen1 els cursor None = Inr ks"
  shows "sorted_wrt (<) ks \<and> (\<forall>c. cursor = Some c \<longrightarrow> (\<forall>k \<in> set ks. c < k))"
  using assms(2)
proof (induction els arbitrary: cursor ks)
  case Nil
  then show ?case by simp
next
  case (Cons element rest)
  from Cons.prems obtain k ks' where k: "gen1 cursor None = Inr k"
    and rest: "generateOneByOne gen1 rest (Some k) None = Inr ks'" and ks: "ks = k # ks'"
    by (auto split: sum.splits)
  from Cons.IH [OF rest] have sorted: "sorted_wrt (<) ks'" and above: "\<forall>x \<in> set ks'. k < x"
    by auto
  have low: "c < k" if "cursor = Some c" for c
    using assms(1) k that by (auto simp: single_contract_def)
  have "c < x" if "cursor = Some c" "x \<in> set ks'" for c x
    using low [OF that(1)] above that(2) by (metis less_trans)
  with sorted above low show ?case
    by (auto simp: ks)
qed

lemma tryGenerateN_sorted:
  "batch_contract genN \<Longrightarrow> tryGenerateN genN n l r = Some ks \<Longrightarrow>
     sorted_wrt (<) ks \<and> length ks = n"
  by (auto simp: tryGenerateN_def batch_contract_def split: sum.splits if_splits)

lemma tryGenerateOneByOne_sorted:
  "single_contract gen1 \<Longrightarrow> tryGenerateOneByOne gen1 els None None = Some ks \<Longrightarrow>
     sorted_wrt (<) ks \<and> length ks = length els"
  using generateOneByOne_sorted [of gen1 els None ks] generateOneByOne_length [of gen1 els None None ks]
  by (auto simp: tryGenerateOneByOne_def split: sum.splits)

lemma buildUngroupIndexes_chain:
  "els \<noteq> [] \<Longrightarrow>
   buildUngroupIndexes genN gen1 els a b fb =
     (case firstSuccess
         [tryGenerateN genN (length els) a b,
          tryGenerateN genN (length els) a None,
          tryGenerateN genN (length els) (Some fb) None,
          tryGenerateN genN (length els) None None,
          tryGenerateOneByOne gen1 els None None] of
        Some ks \<Rightarrow> ks | None \<Rightarrow> [])"
  by (simp add: buildUngroupIndexes_def Let_def split: option.splits)

lemma firstSuccess_mem:
  "firstSuccess xs = Some r \<Longrightarrow> Some r \<in> set xs"
  by (induction xs rule: firstSuccess.induct) auto









text \<open>
  Under the contract of the key library the result is strictly increasing; the ordering
  comes from the library, not from a check in \<^verbatim>\<open>buildUngroupIndexes\<close>.
\<close>

lemma buildUngroupIndexes_ordered_under_contract:
  assumes "batch_contract genN" and "single_contract gen1"
  shows "sorted_wrt (<) (buildUngroupIndexes genN gen1 els a b fb)
       \<and> (buildUngroupIndexes genN gen1 els a b fb = []
            \<or> length (buildUngroupIndexes genN gen1 els a b fb) = length els)
       \<and> (els \<noteq> [] \<longrightarrow>
            buildUngroupIndexes genN gen1 els a b fb =
              (case firstSuccess
                 [tryGenerateN genN (length els) a b,
                  tryGenerateN genN (length els) a None,
                  tryGenerateN genN (length els) (Some fb) None,
                  tryGenerateN genN (length els) None None,
                  tryGenerateOneByOne gen1 els None None] of
                 Some ks \<Rightarrow> ks | None \<Rightarrow> []))
       \<and> (genN (Some ''a0'') (Some ''a0'') 2 = Inl err
            \<and> genN (Some ''a0'') None 2 = Inr [''n0'', ''n1'']
            \<longrightarrow> buildUngroupIndexes genN gen1 [x, y] (Some ''a0'') (Some ''a0'') fb
                  = [''n0'', ''n1''])"
proof -
  let ?r = "buildUngroupIndexes genN gen1 els a b fb"
  let ?chain = "[tryGenerateN genN (length els) a b,
                  tryGenerateN genN (length els) a None,
                  tryGenerateN genN (length els) (Some fb) None,
                  tryGenerateN genN (length els) None None,
                  tryGenerateOneByOne gen1 els None None]"
  have good: "sorted_wrt (<) ?r \<and> (?r = [] \<or> length ?r = length els)"
  proof (cases "els = []")
    case True
    then show ?thesis by (simp add: buildUngroupIndexes_def)
  next
    case False
    show ?thesis
    proof (cases "firstSuccess ?chain")
      case None
      with False show ?thesis by (simp add: buildUngroupIndexes_chain)
    next
      case (Some ks)
      then have r: "?r = ks" using False by (simp add: buildUngroupIndexes_chain)
      have "Some ks \<in> set ?chain"
        by (rule firstSuccess_mem [OF Some])
      then consider l r where "tryGenerateN genN (length els) l r = Some ks"
        | "tryGenerateOneByOne gen1 els None None = Some ks"
        by force
      then have "sorted_wrt (<) ks \<and> length ks = length els"
      proof cases
        case 1
        then show ?thesis by (rule tryGenerateN_sorted [OF assms(1)])
      next
        case 2
        then show ?thesis by (rule tryGenerateOneByOne_sorted [OF assms(2)])
      qed
      with r show ?thesis by simp
    qed
  qed
  have scenario: "genN (Some ''a0'') (Some ''a0'') 2 = Inl err
            \<and> genN (Some ''a0'') None 2 = Inr [''n0'', ''n1'']
            \<longrightarrow> buildUngroupIndexes genN gen1 [x, y] (Some ''a0'') (Some ''a0'') fb
                  = [''n0'', ''n1'']"
  proof (intro impI)
    assume h: "genN (Some ''a0'') (Some ''a0'') 2 = Inl err
            \<and> genN (Some ''a0'') None 2 = Inr [''n0'', ''n1'']"
    have n: "length [x, y] = 2" by simp
    have t1: "tryGenerateN genN 2 (Some ''a0'') (Some ''a0'') = None"
      using h by (simp add: tryGenerateN_def)
    have t2: "tryGenerateN genN 2 (Some ''a0'') None = Some [''n0'', ''n1'']"
      using h by (simp add: tryGenerateN_def)
    show "buildUngroupIndexes genN gen1 [x, y] (Some ''a0'') (Some ''a0'') fb = [''n0'', ''n1'']"
      by (simp only: buildUngroupIndexes_def Let_def n t1 t2 option.case list.distinct if_False)
  qed
  from good scenario show ?thesis
    by (simp add: buildUngroupIndexes_chain)
qed

lemma append_one_greater: "c < c @ ''1''"
  by (induction c) simp_all

lemma mock_genN_contract: "batch_contract mock_genN"
  by (auto simp: batch_contract_def mock_genN_def split: if_splits)

lemma mock_gen1_contract: "single_contract mock_gen1"
  by (simp add: single_contract_def mock_gen1_def append_one_greater)

lemma failing_genN_contract: "batch_contract failing_genN"
  by (simp add: batch_contract_def failing_genN_def)

lemma buildUngroupIndexes_ordered_under_contract_example:
  "batch_contract mock_genN \<and> single_contract mock_gen1
   \<and> buildUngroupIndexes mock_genN mock_gen1 [''child-a'', ''child-b''] (Some ''a0'') (Some ''a0'') ''m0''
        = [''n0'', ''n1'']
   \<and> ''n0'' < ''n1''"
proof -
  have a: "mock_genN (Some ''a0'') (Some ''a0'') 2 = Inl (Error ''interval reversed'')
        \<and> mock_genN (Some ''a0'') None 2 = Inr [''n0'', ''n1'']"
    by (simp add: mock_genN_def)
  from buildUngroupIndexes_ordered_under_contract [OF mock_genN_contract mock_gen1_contract,
      of "[''child-a'', ''child-b'']" "Some ''a0''" "Some ''a0''" "''m0''"
         "Error ''interval reversed''" "''child-a''" "''child-b''"] a
  have "buildUngroupIndexes mock_genN mock_gen1 [''child-a'', ''child-b''] (Some ''a0'') (Some ''a0'') ''m0''
        = [''n0'', ''n1'']
      \<and> sorted_wrt (<) (buildUngroupIndexes mock_genN mock_gen1 [''child-a'', ''child-b'']
            (Some ''a0'') (Some ''a0'') ''m0'')"
    by blast
  then show ?thesis
    using mock_genN_contract mock_gen1_contract by simp
qed

text \<open>
  C4. For a field that is not a declared persisted field and is not recorded as stashed:
  \<^verbatim>\<open>stash\<close> is a no-op, and \<^verbatim>\<open>stash\<close>, then an assignment, then \<^verbatim>\<open>pop\<close> raise nothing and
  change the local properties only. After each step the backing storage \<open>yMap\<close> is what it
  was (so \<^verbatim>\<open>yMap.has(field)\<close> stays false if it was) and the field is not recorded as stashed.
\<close>

theorem stash_pop_undeclared_field_is_noop:
  assumes "field \<notin> set declared" and "stashed e field = None"
  shows "stash declared field e = Inr e
       \<and> andThen (andThen (stash declared field e) (assign declared field v)) (pop declared field)
           = Inr (e\<lparr> localProps := (localProps e)(field \<mapsto> v) \<rparr>)
       \<and> (\<forall>e'. andThen (stash declared field e) (assign declared field v) = Inr e'
              \<or> andThen (andThen (stash declared field e) (assign declared field v))
                   (pop declared field) = Inr e'
            \<longrightarrow> yMap e' = yMap e \<and> stashed e' field = None)"
  using assms by (auto simp: stash_def assign_def pop_def andThen_def)

theorem stash_pop_undeclared_field_is_noop_witness:
  "''opacity'' \<notin> set shape_fields \<and> stashed fresh_shape ''opacity'' = None
   \<and> stash shape_fields ''opacity'' fresh_shape = Inr fresh_shape
   \<and> andThen (andThen (stash shape_fields ''opacity'' fresh_shape) (assign shape_fields ''opacity'' 5))
        (pop shape_fields ''opacity'')
       = Inr (fresh_shape\<lparr> localProps := [''opacity'' \<mapsto> 5] \<rparr>)
   \<and> yMap (fresh_shape\<lparr> localProps := [''opacity'' \<mapsto> 5] \<rparr>) ''opacity'' = None"
proof -
  have h1: "''opacity'' \<notin> set shape_fields" by (simp add: shape_fields_def)
  have h2: "stashed fresh_shape ''opacity'' = None" by (simp add: fresh_shape_def)
  have l: "(localProps fresh_shape)(''opacity'' \<mapsto> 5) = [''opacity'' \<mapsto> 5]"
    by (simp add: fresh_shape_def)
  have y: "yMap (fresh_shape\<lparr> localProps := [''opacity'' \<mapsto> 5] \<rparr>) ''opacity'' = None"
    by (simp add: fresh_shape_def)
  note t = stash_pop_undeclared_field_is_noop [OF h1 h2, of 5]
  have a: "stash shape_fields ''opacity'' fresh_shape = Inr fresh_shape"
    by (rule t [THEN conjunct1])
  have b: "andThen (andThen (stash shape_fields ''opacity'' fresh_shape) (assign shape_fields ''opacity'' 5))
        (pop shape_fields ''opacity'')
       = Inr (fresh_shape\<lparr> localProps := [''opacity'' \<mapsto> 5] \<rparr>)"
    using t [THEN conjunct2, THEN conjunct1] unfolding l .
  show ?thesis
    by (intro conjI h1 h2 a b y)
qed

lemma removeAll_empty: "removeAll c xs = [] \<Longrightarrow> x \<in> set xs \<Longrightarrow> x = c"
  by (induction xs) (auto split: if_splits)

lemma ids_removeConnectorEndpoint:
  "set (connectorIdsAt (removeConnectorEndpoint e c s) e')
     = (if e' = e then set (connectorIdsAt s e) - {c} else set (connectorIdsAt s e'))"
  by (auto simp: removeConnectorEndpoint_def connectorIdsAt_def Let_def split: option.splits
      dest: removeAll_empty)

lemma frame_removeConnectorEndpoint:
  "connectorEndpoints (removeConnectorEndpoint e c s) = connectorEndpoints s"
  "elementModels (removeConnectorEndpoint e c s) = elementModels s"
  by (simp_all add: removeConnectorEndpoint_def Let_def split: option.splits)

lemma ids_addConnectorEndpoint:
  "set (connectorIdsAt (addConnectorEndpoint e c s) e')
     = (if e' = e then insert c (set (connectorIdsAt s e)) else set (connectorIdsAt s e'))"
  by (auto simp: addConnectorEndpoint_def connectorIdsAt_def split: option.splits)

lemma frame_addConnectorEndpoint:
  "connectorEndpoints (addConnectorEndpoint e c s) = connectorEndpoints s"
  "elementModels (addConnectorEndpoint e c s) = elementModels s"
  by (simp_all add: addConnectorEndpoint_def split: option.splits)

lemma ids_update_endpoints [simp]:
  "connectorIdsAt (s\<lparr> connectorEndpoints := m \<rparr>) e = connectorIdsAt s e"
  by (simp add: connectorIdsAt_def)









definition empty_affine_surface :: affine_surface where
  "empty_affine_surface = surface.extend empty_surface
     (affine_surface.fields Map.empty Map.empty)"

lemma ids_remove_if:
  "set (connectorIdsAt (if truthy x then removeConnectorEndpoint (the x) c s else s) e)
     = (if truthy x \<and> x = Some e then set (connectorIdsAt s e) - {c}
        else set (connectorIdsAt s e))"
  by (cases x) (auto simp: truthy_def ids_removeConnectorEndpoint)

lemma ids_add_if:
  "set (connectorIdsAt (if truthy x then addConnectorEndpoint (the x) c s else s) e)
     = (if truthy x \<and> x = Some e then insert c (set (connectorIdsAt s e))
        else set (connectorIdsAt s e))"
  by (cases x) (auto simp: truthy_def ids_addConnectorEndpoint)

lemma ids_setConnectorEndpoints:
  assumes "index_consistent s"
    and "connectorEndpoints s (model_id k) \<noteq> Some (sourceId k, targetId k)"
  shows "set (connectorIdsAt (setConnectorEndpoints k s) e)
           = (set (connectorIdsAt s e) - {model_id k})
             \<union> (if (truthy (sourceId k) \<and> sourceId k = Some e)
                     \<or> (truthy (targetId k) \<and> targetId k = Some e) then {model_id k} else {})"
proof -
  let ?c = "model_id k"
  let ?prev = "connectorEndpoints s ?c"
  let ?ps = "case ?prev of Some p \<Rightarrow> fst p | None \<Rightarrow> None"
  let ?pt = "case ?prev of Some p \<Rightarrow> snd p | None \<Rightarrow> None"
  let ?s1 = "if truthy ?ps then removeConnectorEndpoint (the ?ps) ?c s else s"
  let ?s2 = "if truthy ?pt then removeConnectorEndpoint (the ?pt) ?c ?s1 else ?s1"
  have notin: "?c \<notin> set (connectorIdsAt s e)"
    if "\<not> (truthy ?ps \<and> ?ps = Some e)" "\<not> (truthy ?pt \<and> ?pt = Some e)"
  proof
    assume "?c \<in> set (connectorIdsAt s e)"
    with assms(1) obtain src tgt where "?prev = Some (src, tgt)" "e \<noteq> []"
        "src = Some e \<or> tgt = Some e"
      unfolding index_consistent_def by blast
    with that show False by (auto simp: truthy_def)
  qed
  have "set (connectorIdsAt ?s2 e)
          = (if truthy ?pt \<and> ?pt = Some e then set (connectorIdsAt ?s1 e) - {?c}
             else set (connectorIdsAt ?s1 e))"
    by (rule ids_remove_if)
  also have "set (connectorIdsAt ?s1 e)
          = (if truthy ?ps \<and> ?ps = Some e then set (connectorIdsAt s e) - {?c}
             else set (connectorIdsAt s e))"
    by (rule ids_remove_if)
  finally have removed: "set (connectorIdsAt ?s2 e) = set (connectorIdsAt s e) - {?c}"
    using notin by (cases "truthy ?ps \<and> ?ps = Some e"; cases "truthy ?pt \<and> ?pt = Some e") auto
  let ?s3 = "if truthy (sourceId k) then addConnectorEndpoint (the (sourceId k)) ?c ?s2 else ?s2"
  let ?s4 = "if truthy (targetId k) then addConnectorEndpoint (the (targetId k)) ?c ?s3 else ?s3"
  have "set (connectorIdsAt ?s4 e)
          = (if truthy (targetId k) \<and> targetId k = Some e then insert ?c (set (connectorIdsAt ?s3 e))
             else set (connectorIdsAt ?s3 e))"
    by (rule ids_add_if)
  also have "set (connectorIdsAt ?s3 e)
          = (if truthy (sourceId k) \<and> sourceId k = Some e then insert ?c (set (connectorIdsAt ?s2 e))
             else set (connectorIdsAt ?s2 e))"
    by (rule ids_add_if)
  finally have added: "set (connectorIdsAt ?s4 e)
      = set (connectorIdsAt ?s2 e)
        \<union> (if (truthy (sourceId k) \<and> sourceId k = Some e)
                \<or> (truthy (targetId k) \<and> targetId k = Some e) then {?c} else {})"
    by (cases "truthy (sourceId k) \<and> sourceId k = Some e";
        cases "truthy (targetId k) \<and> targetId k = Some e") auto
  have "setConnectorEndpoints k s
          = ?s4\<lparr> connectorEndpoints := (connectorEndpoints ?s4)(?c \<mapsto> (sourceId k, targetId k)) \<rparr>"
    using assms(2) by (simp add: setConnectorEndpoints_def Let_def)
  then have "set (connectorIdsAt (setConnectorEndpoints k s) e) = set (connectorIdsAt ?s4 e)"
    by (simp only: ids_update_endpoints)
  with added removed show ?thesis by (simp only:)
qed

lemma frame_remove_if:
  "connectorEndpoints (if truthy x then removeConnectorEndpoint (the x) c s else s)
     = connectorEndpoints s"
  by (simp add: frame_removeConnectorEndpoint)

lemma frame_add_if:
  "connectorEndpoints (if truthy x then addConnectorEndpoint (the x) c s else s)
     = connectorEndpoints s"
  by (simp add: frame_addConnectorEndpoint)

lemma endpoints_setConnectorEndpoints:
  assumes "connectorEndpoints s (model_id k) \<noteq> Some (sourceId k, targetId k)"
  shows "connectorEndpoints (setConnectorEndpoints k s)
           = (connectorEndpoints s)(model_id k \<mapsto> (sourceId k, targetId k))"
  using assms
  by (simp add: setConnectorEndpoints_def Let_def frame_add_if frame_remove_if del: if_split
      cong: if_weak_cong)

lemma consistent_setConnectorEndpoints:
  assumes "index_consistent s"
  shows "index_consistent (setConnectorEndpoints k s)"
proof (cases "connectorEndpoints s (model_id k) = Some (sourceId k, targetId k)")
  case True
  then show ?thesis using assms by (simp add: setConnectorEndpoints_def)
next
  case False
  show ?thesis
    unfolding index_consistent_def
  proof (intro allI impI)
    fix e c
    assume "c \<in> set (connectorIdsAt (setConnectorEndpoints k s) e)"
    then have m: "(c \<in> set (connectorIdsAt s e) \<and> c \<noteq> model_id k)
        \<or> (c = model_id k \<and> e \<noteq> [] \<and> (sourceId k = Some e \<or> targetId k = Some e))"
      unfolding ids_setConnectorEndpoints [OF assms False]
      by (auto simp: truthy_def split: if_splits)
    then show "\<exists>src tgt. connectorEndpoints (setConnectorEndpoints k s) c = Some (src, tgt)
         \<and> e \<noteq> [] \<and> (src = Some e \<or> tgt = Some e)"
    proof
      assume a: "c \<in> set (connectorIdsAt s e) \<and> c \<noteq> model_id k"
      with assms obtain src tgt where "connectorEndpoints s c = Some (src, tgt)" "e \<noteq> []"
          "src = Some e \<or> tgt = Some e"
        unfolding index_consistent_def by blast
      with a show ?thesis
        by (simp add: endpoints_setConnectorEndpoints [OF False])
    next
      assume "c = model_id k \<and> e \<noteq> [] \<and> (sourceId k = Some e \<or> targetId k = Some e)"
      then show ?thesis
        by (simp add: endpoints_setConnectorEndpoints [OF False])
    qed
  qed
qed


lemma consistent_empty_index:
  "connectorIdsByEndpoint s = Map.empty \<Longrightarrow> index_consistent s"
  by (simp add: index_consistent_def connectorIdsAt_def)




end
